theory Spec2Isabelle
  imports Main "HOL-Library.Word"
begin

section \<open>The audio ring buffer (audio_buffer.cc)\<close>

text \<open>
  \<^verbatim>\<open>size_t\<close> is a 64-bit unsigned integer: addition and subtraction wrap around.
  Samples are only ever copied (\<^verbatim>\<open>memcpy\<close>), never computed with, so the sample type
  is left polymorphic; the constructor value-initialises the storage, hence \<open>zero\<close>.

  The source fixes \<^verbatim>\<open>BUFFER_SIZE = 480000\<close>. Every operation below takes the capacity
  as its first argument, named as in the source, so that the same text can be read at any
  capacity; \<open>BUFFER_SIZE_src\<close> is the value the source uses.
\<close>

type_synonym size_t = "64 word"

definition BUFFER_SIZE_src :: size_t where
  "BUFFER_SIZE_src = 480000"

record 'a AudioRingBuffer =
  buffer :: "'a list"
  writePos :: size_t
  readPos :: size_t

definition AudioRingBuffer_new :: "size_t \<Rightarrow> ('a::zero) AudioRingBuffer" where
  "AudioRingBuffer_new BUFFER_SIZE =
     \<lparr>buffer = replicate (unat BUFFER_SIZE) 0, writePos = 0, readPos = 0\<rparr>"

text \<open>
  \<^verbatim>\<open>memcpy(&buf[off], src, n * sizeof(float))\<close>: the storage after the copy. Reading past
  the end of \<open>src\<close> or writing past the end of \<open>buf\<close> is undefined behaviour in the
  source; the model makes it the value \<open>None\<close>.
\<close>

definition memcpy_store :: "'a list \<Rightarrow> nat \<Rightarrow> 'a list \<Rightarrow> nat \<Rightarrow> 'a list option" where
  "memcpy_store buf off src n =
     (if off + n \<le> length buf \<and> n \<le> length src
      then Some (take off buf @ take n src @ drop (off + n) buf)
      else None)"

text \<open>
  \<^verbatim>\<open>memcpy(dest, &buf[off], n * sizeof(float))\<close>: the \<open>n\<close> samples that land in \<open>dest\<close>.
  Reading past the end of \<open>buf\<close> is \<open>None\<close>.
\<close>

definition memcpy_load :: "'a list \<Rightarrow> nat \<Rightarrow> nat \<Rightarrow> 'a list option" where
  "memcpy_load buf off n =
     (if off + n \<le> length buf then Some (take n (drop off buf)) else None)"

text \<open>
  \<^verbatim>\<open>Write(data, length)\<close>. \<open>data\<close> is the memory readable through the pointer, \<open>len\<close>
  the \<^verbatim>\<open>length\<close> argument. The result is the buffer after the call and the returned
  count; \<open>None\<close> where the source has undefined behaviour (a copy out of bounds, or
  \<^verbatim>\<open>% BUFFER_SIZE\<close> with a zero capacity).
\<close>

definition Write ::
  "size_t \<Rightarrow> 'a AudioRingBuffer \<Rightarrow> 'a list \<Rightarrow> size_t \<Rightarrow> ('a AudioRingBuffer \<times> size_t) option" where
  "Write BUFFER_SIZE rb data len =
     (let currentWrite = writePos rb;
          currentRead = readPos rb;
          available = (if currentRead > currentWrite
                       then currentRead - currentWrite - 1
                       else BUFFER_SIZE - currentWrite + currentRead - 1);
          length' = (if available < len then available else len)
      in if length' = 0 then Some (rb, 0)
         else
           let firstPart = min length' (BUFFER_SIZE - currentWrite) in
           case memcpy_store (buffer rb) (unat currentWrite) data (unat firstPart) of
             None \<Rightarrow> None
           | Some b1 \<Rightarrow>
               (case (if length' > firstPart
                      then memcpy_store b1 0 (drop (unat firstPart) data)
                             (unat (length' - firstPart))
                      else Some b1) of
                  None \<Rightarrow> None
                | Some b2 \<Rightarrow>
                    if BUFFER_SIZE = 0 then None
                    else Some (rb\<lparr>buffer := b2,
                                  writePos := (currentWrite + length') mod BUFFER_SIZE\<rparr>,
                               length')))"

text \<open>
  \<^verbatim>\<open>Read(dest, length)\<close>: the buffer after the call, the samples copied to \<open>dest\<close>
  (\<open>dest[0 .. readCount)\<close>) and the returned count.
\<close>

definition Read ::
  "size_t \<Rightarrow> 'a AudioRingBuffer \<Rightarrow> size_t \<Rightarrow> ('a AudioRingBuffer \<times> 'a list \<times> size_t) option" where
  "Read BUFFER_SIZE rb len =
     (let currentRead = readPos rb;
          currentWrite = writePos rb;
          available = (if currentWrite \<ge> currentRead
                       then currentWrite - currentRead
                       else BUFFER_SIZE - currentRead + currentWrite);
          length' = (if available < len then available else len)
      in if length' = 0 then Some (rb, [], 0)
         else
           let firstPart = min length' (BUFFER_SIZE - currentRead) in
           case memcpy_load (buffer rb) (unat currentRead) (unat firstPart) of
             None \<Rightarrow> None
           | Some d1 \<Rightarrow>
               (case (if length' > firstPart
                      then memcpy_load (buffer rb) 0 (unat (length' - firstPart))
                      else Some []) of
                  None \<Rightarrow> None
                | Some d2 \<Rightarrow>
                    if BUFFER_SIZE = 0 then None
                    else Some (rb\<lparr>readPos := (currentRead + length') mod BUFFER_SIZE\<rparr>,
                               d1 @ d2,
                               length')))"

definition Available :: "size_t \<Rightarrow> 'a AudioRingBuffer \<Rightarrow> size_t" where
  "Available BUFFER_SIZE rb =
     (let currentRead = readPos rb;
          currentWrite = writePos rb
      in if currentWrite \<ge> currentRead
         then currentWrite - currentRead
         else BUFFER_SIZE - currentRead + currentWrite)"

definition Clear :: "'a AudioRingBuffer \<Rightarrow> 'a AudioRingBuffer" where
  "Clear rb = rb\<lparr>writePos := 0, readPos := 0\<rparr>"

subsection \<open>Well-formed buffers and the samples they hold\<close>

text \<open>
  The state invariant of the buffer: the storage has \<open>BUFFER_SIZE\<close> cells and both cursors
  are below it. The capacity is positive and at most \<open>2 ^ 63\<close>, so that
  \<^verbatim>\<open>currentWrite + length\<close> cannot wrap around (a \<^verbatim>\<open>std::vector<float>\<close> cannot hold
  more than \<open>2 ^ 62\<close> elements on a 64-bit target).
\<close>

definition rb_inv :: "size_t \<Rightarrow> 'a AudioRingBuffer \<Rightarrow> bool" where
  "rb_inv C rb \<longleftrightarrow>
     0 < C \<and> unat C \<le> 2 ^ 63 \<and> length (buffer rb) = unat C \<and> writePos rb < C \<and> readPos rb < C"

text \<open>The number of occupied samples, as \<^verbatim>\<open>Available()\<close> computes it.\<close>

definition occupied :: "size_t \<Rightarrow> 'a AudioRingBuffer \<Rightarrow> nat" where
  "occupied C rb = unat (Available C rb)"

text \<open>
  The samples written and not yet read, oldest first: the cells from the read cursor on,
  wrapping at the end of the storage.
\<close>

definition pending :: "size_t \<Rightarrow> 'a AudioRingBuffer \<Rightarrow> 'a list" where
  "pending C rb =
     map (\<lambda>i. buffer rb ! ((unat (readPos rb) + i) mod unat C)) [0..<occupied C rb]"

subsection \<open>Sequences of calls\<close>

text \<open>
  A call of the public interface with its arguments, and what it returns: the count for
  \<^verbatim>\<open>Write\<close>, the samples copied to \<^verbatim>\<open>dest\<close> and the count for \<^verbatim>\<open>Read\<close>.
\<close>

datatype 'a rb_op = OpWrite "'a list" size_t | OpRead size_t | OpClear

datatype 'a rb_result = Written size_t | ReadOut "'a list" size_t | Cleared

fun rb_step ::
  "size_t \<Rightarrow> 'a AudioRingBuffer \<Rightarrow> 'a rb_op \<Rightarrow> ('a AudioRingBuffer \<times> 'a rb_result) option" where
  "rb_step C rb (OpWrite data len) =
     (case Write C rb data len of None \<Rightarrow> None | Some (rb', k) \<Rightarrow> Some (rb', Written k))"
| "rb_step C rb (OpRead len) =
     (case Read C rb len of None \<Rightarrow> None | Some (rb', dest, k) \<Rightarrow> Some (rb', ReadOut dest k))"
| "rb_step C rb OpClear = Some (Clear rb, Cleared)"

fun rb_run ::
  "size_t \<Rightarrow> 'a AudioRingBuffer \<Rightarrow> 'a rb_op list
     \<Rightarrow> ('a AudioRingBuffer \<times> 'a rb_result list) option" where
  "rb_run C rb [] = Some (rb, [])"
| "rb_run C rb (op # ops) =
     (case rb_step C rb op of
        None \<Rightarrow> None
      | Some (rb', res) \<Rightarrow>
          (case rb_run C rb' ops of
             None \<Rightarrow> None
           | Some (rb'', ress) \<Rightarrow> Some (rb'', res # ress)))"

text \<open>A \<^verbatim>\<open>Write\<close> call is well formed when \<^verbatim>\<open>data\<close> holds at least \<^verbatim>\<open>length\<close> samples.\<close>

fun wf_op :: "'a rb_op \<Rightarrow> bool" where
  "wf_op (OpWrite data len) = (unat len \<le> length data)"
| "wf_op _ = True"

subsection \<open>The specification's queue\<close>

text \<open>
  The reference behaviour the specification compares the buffer with: an unbounded
  first-in first-out queue of samples. A write appends its samples and returns their
  number, a read removes and returns the oldest samples, a clear empties the queue.
\<close>

fun fifo_step :: "'a list \<Rightarrow> 'a rb_op \<Rightarrow> 'a list \<times> 'a rb_result" where
  "fifo_step q (OpWrite data len) = (q @ take (unat len) data, Written len)"
| "fifo_step q (OpRead len) =
     (drop (unat len) q, ReadOut (take (unat len) q) (of_nat (min (unat len) (length q))))"
| "fifo_step q OpClear = ([], Cleared)"

fun fifo_run :: "'a list \<Rightarrow> 'a rb_op list \<Rightarrow> 'a rb_result list" where
  "fifo_run q [] = []"
| "fifo_run q (op # ops) = snd (fifo_step q op) # fifo_run (fst (fifo_step q op)) ops"

text \<open>
  The outstanding samples (those of the queue \<open>q\<close>) never exceed \<open>N - 1\<close> along the
  sequence of calls, and every write is well formed.
\<close>

fun within_capacity :: "nat \<Rightarrow> 'a list \<Rightarrow> 'a rb_op list \<Rightarrow> bool" where
  "within_capacity N q [] = True"
| "within_capacity N q (OpWrite data len # ops) =
     (unat len \<le> length data \<and> length q + unat len \<le> N - 1
      \<and> within_capacity N (q @ take (unat len) data) ops)"
| "within_capacity N q (op # ops) = within_capacity N (fst (fifo_step q op)) ops"

section \<open>The transcription worker (whisper_worker.cc)\<close>

text \<open>
  An \<^verbatim>\<open>AudioChunk\<close> owns a copy of \<^verbatim>\<open>length\<close> samples and a timestamp. Its constructor
  reads \<^verbatim>\<open>audioData[0 .. length)\<close>; reading past the end of the caller's memory is
  undefined behaviour in the source and \<open>None\<close> here.
\<close>

record 'a AudioChunk =
  data :: "'a list"
  timestamp :: size_t

definition AudioChunk_new :: "'a list \<Rightarrow> size_t \<Rightarrow> size_t \<Rightarrow> 'a AudioChunk option" where
  "AudioChunk_new audioData len ts =
     (if unat len \<le> length audioData
      then Some \<lparr>data = take (unat len) audioData, timestamp = ts\<rparr>
      else None)"

text \<open>
  The worker object. \<open>workerThread\<close> records where the background thread is: still
  executing \<^verbatim>\<open>ProcessQueue\<close>, returned from it but not yet joined, or joined (the only
  state in which \<^verbatim>\<open>joinable()\<close> is false). The source's processing step is a placeholder
  comment; \<open>dispatched\<close> is the list of chunks that have reached it, oldest first.
\<close>

datatype thread_status = Running | Exited | Joined

record 'a WhisperWorker =
  audioQueue :: "'a AudioChunk list"
  stopRequested :: bool
  workerThread :: thread_status
  dispatched :: "'a AudioChunk list"

text \<open>
  The constructor clears the stop flag and starts the thread.
\<close>

definition WhisperWorker_new :: "'a WhisperWorker" where
  "WhisperWorker_new =
     \<lparr>audioQueue = [], stopRequested = False, workerThread = Running, dispatched = []\<rparr>"

text \<open>
  One pass through the body of the \<^verbatim>\<open>while\<close> loop of \<^verbatim>\<open>ProcessQueue\<close>, in the order
  of the source: the loop condition, the wait on the condition variable with its
  predicate, the \<^verbatim>\<open>break\<close> on a requested stop, and the pop of the head chunk, which is
  then handed to the processing step. The worker holds \<open>queueMutex\<close> from the wait to
  the pop, so the pass is taken as one atomic step on the state it finds:
  \<open>Leaves\<close> when the loop ends, \<open>Waits\<close> when the thread stays suspended in the wait,
  \<open>Takes\<close> with the chunk popped and the state left behind, \<open>Idles\<close> when the pass
  does nothing.
\<close>

datatype 'a iteration = Leaves | Waits | Takes "'a AudioChunk" "'a WhisperWorker" | Idles

definition ProcessQueue_iteration :: "'a WhisperWorker \<Rightarrow> 'a iteration" where
  "ProcessQueue_iteration w =
     (if stopRequested w then Leaves
      else if \<not> (audioQueue w \<noteq> [] \<or> stopRequested w) then Waits
      else if stopRequested w then Leaves
      else case audioQueue w of
             [] \<Rightarrow> Idles
           | chunk # rest \<Rightarrow>
               Takes chunk (w\<lparr>audioQueue := rest, dispatched := dispatched w @ [chunk]\<rparr>))"

text \<open>
  A turn of the worker thread: \<open>None\<close> when it cannot move, because it is suspended
  in the wait or has already returned from \<^verbatim>\<open>ProcessQueue\<close>.
\<close>

definition worker_turn :: "'a WhisperWorker \<Rightarrow> 'a WhisperWorker option" where
  "worker_turn w =
     (if workerThread w = Running
      then case ProcessQueue_iteration w of
             Leaves \<Rightarrow> Some (w\<lparr>workerThread := Exited\<rparr>)
           | Waits \<Rightarrow> None
           | Takes chunk w' \<Rightarrow> Some w'
           | Idles \<Rightarrow> Some w
      else None)"

text \<open>
  \<^verbatim>\<open>EnqueueAudio\<close> appends a new chunk under the lock.
\<close>

definition EnqueueAudio ::
  "'a WhisperWorker \<Rightarrow> 'a list \<Rightarrow> size_t \<Rightarrow> size_t \<Rightarrow> 'a WhisperWorker option" where
  "EnqueueAudio w audioData len ts =
     (case AudioChunk_new audioData len ts of
        None \<Rightarrow> None
      | Some chunk \<Rightarrow> Some (w\<lparr>audioQueue := audioQueue w @ [chunk]\<rparr>))"

text \<open>
  \<^verbatim>\<open>Stop\<close> has two parts. The first sets the flag under the lock and notifies. The second
  is \<^verbatim>\<open>if (workerThread.joinable()) workerThread.join()\<close>: it completes once the thread
  has returned from \<^verbatim>\<open>ProcessQueue\<close>, and is \<open>None\<close> while the caller is still blocked in
  \<^verbatim>\<open>join\<close>. A call of \<^verbatim>\<open>Stop\<close> has returned when its second part has completed.
\<close>

definition Stop_request :: "'a WhisperWorker \<Rightarrow> 'a WhisperWorker" where
  "Stop_request w = w\<lparr>stopRequested := True\<rparr>"

definition Stop_join :: "'a WhisperWorker \<Rightarrow> 'a WhisperWorker option" where
  "Stop_join w =
     (if workerThread w \<noteq> Joined
      then (if workerThread w = Exited then Some (w\<lparr>workerThread := Joined\<rparr>) else None)
      else Some w)"

text \<open>
  The worker and its callers run concurrently. An execution is a sequence of events, each
  atomic: a call of \<^verbatim>\<open>EnqueueAudio\<close>, a turn of the worker thread, the first part of a
  \<^verbatim>\<open>Stop\<close> call, the return of a \<^verbatim>\<open>Stop\<close> call. \<open>worker_run\<close> is \<open>None\<close> when the
  sequence asks for an event that cannot happen in the state reached.
\<close>

datatype 'a event =
    Enqueue "'a list" size_t size_t
  | WorkerTurn
  | StopCalled
  | StopReturned

fun worker_step :: "'a WhisperWorker \<Rightarrow> 'a event \<Rightarrow> 'a WhisperWorker option" where
  "worker_step w (Enqueue audioData len ts) = EnqueueAudio w audioData len ts"
| "worker_step w WorkerTurn = worker_turn w"
| "worker_step w StopCalled = Some (Stop_request w)"
| "worker_step w StopReturned = Stop_join w"

fun worker_run :: "'a WhisperWorker \<Rightarrow> 'a event list \<Rightarrow> 'a WhisperWorker option" where
  "worker_run w [] = Some w"
| "worker_run w (e # es) = (case worker_step w e of None \<Rightarrow> None | Some w' \<Rightarrow> worker_run w' es)"

text \<open>
  The chunks the \<^verbatim>\<open>EnqueueAudio\<close> calls of an execution create, in call order.
\<close>

fun enqueued :: "'a event list \<Rightarrow> 'a AudioChunk list" where
  "enqueued [] = []"
| "enqueued (Enqueue audioData len ts # es) =
     (case AudioChunk_new audioData len ts of None \<Rightarrow> [] | Some chunk \<Rightarrow> [chunk]) @ enqueued es"
| "enqueued (e # es) = enqueued es"

text \<open>
  The thread returns from \<^verbatim>\<open>ProcessQueue\<close> only after a stop has been requested.
\<close>

definition worker_inv :: "'a WhisperWorker \<Rightarrow> bool" where
  "worker_inv w \<longleftrightarrow> (workerThread w \<noteq> Running \<longrightarrow> stopRequested w)"

section \<open>The session object (whisper_addon.cc)\<close>

text \<open>
  The session holds a pointer to a whisper context (\<open>None\<close> is \<^verbatim>\<open>nullptr\<close>) and the
  model path. The whisper library and N-API are external to the repository: their
  functions are parameters of the operations below, named as in the source, and the
  state of the library (which contexts are allocated) is a value \<open>h\<close> of an arbitrary
  type that those functions transform.
\<close>

type_synonym whisper_context = nat

record WhisperSession =
  ctx :: "whisper_context option"
  modelPath :: string

text \<open>
  The JavaScript values the methods inspect. The payload of a number is left abstract;
  \<^verbatim>\<open>Int32Value()\<close> is a parameter. An object is its list of properties. A buffer is an
  object without the properties looked up here.
\<close>

datatype ('n, 'a) napi_value =
    Napi_Undefined
  | Napi_Null
  | Napi_Boolean bool
  | Napi_Number 'n
  | Napi_String string
  | Napi_Object "(string \<times> ('n, 'a) napi_value) list"
  | Napi_Buffer "'a list"

datatype js_error = TypeError string | Error string

fun IsString :: "('n, 'a) napi_value \<Rightarrow> bool" where
  "IsString (Napi_String _) = True"
| "IsString _ = False"

fun IsNumber :: "('n, 'a) napi_value \<Rightarrow> bool" where
  "IsNumber (Napi_Number _) = True"
| "IsNumber _ = False"

fun IsBuffer :: "('n, 'a) napi_value \<Rightarrow> bool" where
  "IsBuffer (Napi_Buffer _) = True"
| "IsBuffer _ = False"

fun IsObject :: "('n, 'a) napi_value \<Rightarrow> bool" where
  "IsObject (Napi_Object _) = True"
| "IsObject (Napi_Buffer _) = True"
| "IsObject _ = False"

fun Has :: "('n, 'a) napi_value \<Rightarrow> string \<Rightarrow> bool" where
  "Has (Napi_Object props) key = (map_of props key \<noteq> None)"
| "Has _ key = False"

fun Get :: "('n, 'a) napi_value \<Rightarrow> string \<Rightarrow> ('n, 'a) napi_value" where
  "Get (Napi_Object props) key =
     (case map_of props key of None \<Rightarrow> Napi_Undefined | Some v \<Rightarrow> v)"
| "Get _ key = Napi_Undefined"

fun Utf8Value :: "('n, 'a) napi_value \<Rightarrow> string" where
  "Utf8Value (Napi_String s) = s"
| "Utf8Value _ = []"

text \<open>
  The fields of \<^verbatim>\<open>whisper_full_params\<close> that \<^verbatim>\<open>Transcribe\<close> sets; the remaining fields
  of the library's structure are the extension part of the record.
\<close>

record whisper_full_params =
  print_progress :: bool
  print_special :: bool
  print_realtime :: bool
  print_timestamps :: bool
  translate :: bool
  n_threads :: "32 word"
  language :: string

text \<open>
  The constructor, \<^verbatim>\<open>LoadModel\<close> and \<^verbatim>\<open>Destroy\<close>. A thrown JavaScript exception is the
  \<open>Inl\<close> result.
\<close>

definition WhisperSession_new ::
  "('n, 'a) napi_value list \<Rightarrow> js_error + WhisperSession" where
  "WhisperSession_new info =
     (if length info < 1 \<or> \<not> IsString (info ! 0)
      then Inl (TypeError ''Model path required'')
      else Inr \<lparr>ctx = None, modelPath = Utf8Value (info ! 0)\<rparr>)"

definition LoadModel ::
  "('h \<Rightarrow> whisper_context \<Rightarrow> 'h) \<Rightarrow> ('h \<Rightarrow> string \<Rightarrow> 'h \<times> whisper_context option)
     \<Rightarrow> 'h \<times> WhisperSession \<Rightarrow> ('h \<times> WhisperSession) \<times> (js_error + bool)" where
  "LoadModel whisper_free whisper_init_from_file_with_params hs =
     (let (h, s) = hs;
          h1 = (case ctx s of None \<Rightarrow> h | Some c \<Rightarrow> whisper_free h c);
          (h2, c') = whisper_init_from_file_with_params h1 (modelPath s);
          s' = s\<lparr>ctx := c'\<rparr>
      in case c' of
           None \<Rightarrow> ((h2, s'), Inl (Error (''Failed to load model: '' @ modelPath s)))
         | Some _ \<Rightarrow> ((h2, s'), Inr True))"

definition Destroy ::
  "('h \<Rightarrow> whisper_context \<Rightarrow> 'h) \<Rightarrow> 'h \<times> WhisperSession \<Rightarrow> 'h \<times> WhisperSession" where
  "Destroy whisper_free hs =
     (let (h, s) = hs
      in case ctx s of
           None \<Rightarrow> (h, s)
         | Some c \<Rightarrow> (whisper_free h c, s\<lparr>ctx := None\<rparr>))"

text \<open>
  \<^verbatim>\<open>Transcribe\<close>, in two definitions: \<open>Transcribe_wparams\<close> is the part of the function
  that builds \<^verbatim>\<open>wparams\<close> (the defaulted parameters, the parsing of the options object
  and the assignment of the language); \<open>Transcribe\<close> is the whole function, which
  passes them to \<^verbatim>\<open>whisper_full\<close>. The external \<^verbatim>\<open>whisper_full\<close> is given the context, the
  parameters and the audio, and yields its return code and the segments it leaves in the
  context (text, \<^verbatim>\<open>t0\<close>, \<^verbatim>\<open>t1\<close>, the times as 64-bit integers). The result is the
  thrown error or the array of segment objects. Each time is multiplied by 10 in 64-bit
  arithmetic and handed to \<^verbatim>\<open>Napi::Number::New\<close>, which takes a \<^verbatim>\<open>double\<close>: that
  conversion of the 64-bit product to a JavaScript number is the parameter
  \<open>Number_New\<close>.
\<close>

definition Transcribe_wparams ::
  "('n \<Rightarrow> 32 word) \<Rightarrow> 'z whisper_full_params_scheme \<Rightarrow> ('n, 'a) napi_value list
     \<Rightarrow> 'z whisper_full_params_scheme" where
  "Transcribe_wparams Int32Value whisper_full_default_params info =
     (let wparams = whisper_full_default_params
            \<lparr>print_progress := False, print_special := False, print_realtime := False,
             print_timestamps := True, translate := False, n_threads := 4\<rparr>;
          lang = ''en'';
          (lang, wparams) =
            (if length info \<ge> 2 \<and> IsObject (info ! 1)
             then let options = info ! 1;
                      lang = (if Has options ''language'' \<and> IsString (Get options ''language'')
                              then Utf8Value (Get options ''language'') else lang);
                      wparams = (if Has options ''threads'' \<and> IsNumber (Get options ''threads'')
                                 then wparams\<lparr>n_threads :=
                                        (case Get options ''threads'' of
                                           Napi_Number v \<Rightarrow> Int32Value v | _ \<Rightarrow> 0)\<rparr>
                                 else wparams)
                  in (lang, wparams)
             else (lang, wparams))
      in wparams\<lparr>language := lang\<rparr>)"

definition Transcribe ::
  "('n \<Rightarrow> 32 word) \<Rightarrow> (64 word \<Rightarrow> 'n) \<Rightarrow> 'z whisper_full_params_scheme
     \<Rightarrow> (whisper_context \<Rightarrow> 'z whisper_full_params_scheme \<Rightarrow> 'a list
          \<Rightarrow> int \<times> (string \<times> 64 word \<times> 64 word) list)
     \<Rightarrow> WhisperSession \<Rightarrow> ('n, 'a) napi_value list
     \<Rightarrow> js_error + ('n, 'a) napi_value list" where
  "Transcribe Int32Value Number_New whisper_full_default_params whisper_full s info =
     (case ctx s of
        None \<Rightarrow> Inl (Error ''Model not loaded'')
      | Some c \<Rightarrow>
          if length info < 1 \<or> \<not> IsBuffer (info ! 0)
          then Inl (TypeError ''Audio buffer required'')
          else
            let audioData = (case info ! 0 of Napi_Buffer samples \<Rightarrow> samples | _ \<Rightarrow> []);
                wparams = Transcribe_wparams Int32Value whisper_full_default_params info;
                (rc, segs) = whisper_full c wparams audioData
            in if rc \<noteq> 0 then Inl (Error ''Transcription failed'')
               else Inr (map (\<lambda>(text, t0, t1).
                               Napi_Object
                                 [(''text'', Napi_String text),
                                  (''timestampStart'', Napi_Number (Number_New (t0 * 10))),
                                  (''timestampEnd'', Napi_Number (Number_New (t1 * 10)))])
                          segs))"

section \<open>Properties of the ring buffer\<close>

subsection \<open>Arithmetic on cursors\<close>

lemma unat_sub_one: "(a::size_t) \<noteq> 0 \<Longrightarrow> unat (a - 1) = unat a - 1"
  by (simp add: unat_minus_one)

lemma occupied_eq:
  assumes "writePos rb < C" "readPos rb < C"
  shows "occupied C rb =
           (if unat (readPos rb) \<le> unat (writePos rb)
            then unat (writePos rb) - unat (readPos rb)
            else unat C - unat (readPos rb) + unat (writePos rb))"
proof (cases "readPos rb \<le> writePos rb")
  case True
  then show ?thesis
    by (simp add: occupied_def Available_def word_le_nat_alt unat_sub)
next
  case False
  let ?r = "readPos rb" and ?w = "writePos rb"
  have r: "unat ?w < unat ?r" "unat ?r < unat C"
    using False assms by (simp_all add: word_le_nat_alt word_less_nat_alt)
  have 1: "unat (C - ?r) = unat C - unat ?r"
    using assms by (simp add: unat_sub)
  have "unat (C - ?r) + unat ?w < 2 ^ LENGTH(64)"
    using r 1 unsigned_less [of C, where 'a = nat] by simp
  then have "unat (C - ?r + ?w) = unat (C - ?r) + unat ?w"
    by (simp only: unat_add_lem)
  with 1 False r show ?thesis
    by (simp add: occupied_def Available_def word_le_nat_alt)
qed

lemma occupied_less: "writePos rb < C \<Longrightarrow> readPos rb < C \<Longrightarrow> occupied C rb < unat C"
  by (auto simp: occupied_eq word_less_nat_alt)

lemma free_eq:
  assumes "writePos rb < C" "readPos rb < C"
  shows "unat (if readPos rb > writePos rb
               then readPos rb - writePos rb - 1
               else C - writePos rb + readPos rb - 1)
         = unat C - 1 - occupied C rb"
proof (cases "readPos rb > writePos rb")
  case True
  let ?r = "readPos rb" and ?w = "writePos rb"
  have 1: "unat (?r - ?w) = unat ?r - unat ?w"
    using True by (simp add: unat_sub)
  have "?r - ?w \<noteq> 0" using True by simp
  then have "unat (?r - ?w - 1) = unat (?r - ?w) - 1" by (rule unat_sub_one)
  with 1 True assms show ?thesis
    by (simp add: occupied_eq word_less_nat_alt)
next
  case False
  let ?r = "readPos rb" and ?w = "writePos rb"
  have r: "unat ?r \<le> unat ?w" "unat ?w < unat C"
    using False assms by (simp_all add: word_le_nat_alt word_less_nat_alt)
  have 1: "unat (C - ?w) = unat C - unat ?w"
    using assms by (simp add: unat_sub)
  have "unat (C - ?w) + unat ?r < 2 ^ LENGTH(64)"
    using r 1 unsigned_less [of C, where 'a = nat] by simp
  then have 2: "unat (C - ?w + ?r) = unat (C - ?w) + unat ?r"
    by (simp only: unat_add_lem)
  then have "unat (C - ?w + ?r) \<noteq> 0" using 1 r by simp
  then have "C - ?w + ?r \<noteq> 0" by (simp add: unat_eq_zero)
  then have "unat (C - ?w + ?r - 1) = unat (C - ?w + ?r) - 1" by (rule unat_sub_one)
  with 1 2 False r assms show ?thesis
    by (simp add: occupied_eq)
qed

lemma unat_add_mod:
  assumes "unat (w::size_t) < unat C" "unat C \<le> 2 ^ 63" "unat l < unat C"
  shows "unat ((w + l) mod C) = (unat w + unat l) mod unat C"
proof -
  have "unat w + unat l < 2 ^ 63 + 2 ^ 63" using assms by linarith
  then have "unat w + unat l < 2 ^ LENGTH(64)" by simp
  then have "unat (w + l) = unat w + unat l" by (simp only: unat_add_lem)
  then show ?thesis by (simp add: unat_mod_distrib)
qed

lemma unat_min_word: "unat (min (a::size_t) b) = min (unat a) (unat b)"
  by (simp add: min_def word_le_nat_alt)

lemma memcpy_store_nth:
  assumes "memcpy_store buf off src n = Some b"
  shows "length b = length buf"
    and "k < length buf \<Longrightarrow>
           b ! k = (if off \<le> k \<and> k < off + n then src ! (k - off) else buf ! k)"
proof -
  from assms have ok: "off + n \<le> length buf" "n \<le> length src"
    and b: "b = take off buf @ take n src @ drop (off + n) buf"
    by (auto simp: memcpy_store_def split: if_splits)
  show "length b = length buf" using ok b by simp
  show "b ! k = (if off \<le> k \<and> k < off + n then src ! (k - off) else buf ! k)"
    if "k < length buf"
    using ok b that by (auto simp: nth_append)
qed

lemma word_eq_of_nat: "unat (x::size_t) = n \<Longrightarrow> x = of_nat n"
  by auto

lemma Write_char:
  fixes rb :: "'a AudioRingBuffer"
  assumes inv: "rb_inv C rb" and len: "unat len \<le> length samples"
  defines "n \<equiv> min (unat len) (unat C - 1 - occupied C rb)"
  defines "W \<equiv> unat (writePos rb)"
  shows "\<exists>b'. Write C rb samples len =
                 Some (rb\<lparr>buffer := b', writePos := of_nat ((W + n) mod unat C)\<rparr>, of_nat n)
            \<and> length b' = unat C
            \<and> (\<forall>i<n. b' ! ((W + i) mod unat C) = samples ! i)
            \<and> (\<forall>k<unat C. (\<forall>i<n. k \<noteq> (W + i) mod unat C) \<longrightarrow> b' ! k = buffer rb ! k)"
proof -
  let ?w = "writePos rb" and ?r = "readPos rb" and ?N = "unat C"
  from inv have C0: "C \<noteq> 0" and N63: "?N \<le> 2 ^ 63" and lb: "length (buffer rb) = ?N"
    and wC: "?w < C" and rC: "?r < C"
    by (auto simp: rb_inv_def)
  have WN: "W < ?N" using wC by (simp add: W_def word_less_nat_alt)
  define av where "av = (if ?r > ?w then ?r - ?w - 1 else C - ?w + ?r - 1)"
  define l where "l = (if av < len then av else len)"
  define f where "f = min l (C - ?w)"
  have Wr: "Write C rb samples len =
      (if l = 0 then Some (rb, 0)
       else case memcpy_store (buffer rb) (unat ?w) samples (unat f) of
              None \<Rightarrow> None
            | Some b1 \<Rightarrow>
               (case (if l > f
                      then memcpy_store b1 0 (drop (unat f) samples) (unat (l - f))
                      else Some b1) of
                  None \<Rightarrow> None
                | Some b2 \<Rightarrow>
                    if C = 0 then None
                    else Some (rb\<lparr>buffer := b2, writePos := (?w + l) mod C\<rparr>, l)))"
    unfolding Write_def Let_def av_def l_def f_def by (rule refl)
  have av: "unat av = ?N - 1 - occupied C rb"
    unfolding av_def using wC rC by (rule free_eq)
  have l: "unat l = n"
    by (simp add: l_def n_def av word_less_nat_alt min_def)
  then have l': "l = of_nat n" by (rule word_eq_of_nat)
  have nN: "n < ?N" using WN by (simp add: n_def)
  show ?thesis
  proof (cases "n = 0")
    case True
    then have "l = 0" using l by (simp add: unat_eq_zero)
    moreover have "rb\<lparr>buffer := buffer rb, writePos := of_nat (W mod ?N)\<rparr> = rb"
      using WN by (simp add: W_def)
    ultimately show ?thesis using True Wr lb
      by (intro exI [of _ "buffer rb"]) simp
  next
    case False
    then have l0: "l \<noteq> 0" using l by (auto simp: unat_eq_zero)
    have CW: "unat (C - ?w) = ?N - W"
      using wC by (simp add: unat_sub W_def)
    define fn where "fn = min n (?N - W)"
    have f: "unat f = fn" by (simp add: f_def fn_def unat_min_word l CW)
    have fle: "fn \<le> n" "W + fn \<le> ?N" using WN by (simp_all add: fn_def)
    have nlen: "n \<le> length samples" using len by (simp add: n_def)
    have "W + fn \<le> length (buffer rb) \<and> fn \<le> length samples"
      using fle nlen lb by simp
    then have "memcpy_store (buffer rb) W samples fn \<noteq> None"
      unfolding memcpy_store_def by (simp only: if_True) simp
    then obtain b1 where b1: "memcpy_store (buffer rb) W samples fn = Some b1"
      by blast
    note b1n = memcpy_store_nth [OF b1]
    have lf: "l > f \<longleftrightarrow> n > fn" by (simp add: word_less_nat_alt l f)
    have wp: "(?w + l) mod C = of_nat ((W + n) mod ?N)"
    proof -
      have "unat ((?w + l) mod C) = (W + n) mod ?N"
        unfolding W_def l [symmetric]
        using WN N63 nN by (intro unat_add_mod) (simp_all add: W_def l)
      then show ?thesis by (rule word_eq_of_nat)
    qed
    show ?thesis
    proof (cases "n > fn")
      case False
      then have nf: "fn = n" using fle by simp
      then have nW: "W + n \<le> ?N" using fle by simp
      have "Write C rb samples len =
              Some (rb\<lparr>buffer := b1, writePos := of_nat ((W + n) mod ?N)\<rparr>, of_nat n)"
        using Wr l0 b1 lf False C0 wp l' by (simp add: f W_def)
      moreover have "length b1 = ?N" using b1n(1) lb by simp
      moreover have "\<forall>i<n. b1 ! ((W + i) mod ?N) = samples ! i"
        using nW nf lb by (auto simp: b1n(2))
      moreover have "\<forall>k<?N. (\<forall>i<n. k \<noteq> (W + i) mod ?N) \<longrightarrow> b1 ! k = buffer rb ! k"
      proof (intro allI impI)
        fix k assume k: "k < ?N" and ne: "\<forall>i<n. k \<noteq> (W + i) mod ?N"
        have "\<not> (W \<le> k \<and> k < W + fn)"
        proof
          assume "W \<le> k \<and> k < W + fn"
          then have "k - W < n" "k = (W + (k - W)) mod ?N" using nf k by auto
          with ne show False by blast
        qed
        then show "b1 ! k = buffer rb ! k" using k lb by (auto simp: b1n(2))
      qed
      ultimately show ?thesis by blast
    next
      case True
      then have fn: "fn = ?N - W" by (simp add: fn_def)
      have ulf: "unat (l - f) = n - fn"
        using True by (simp add: unat_sub word_le_nat_alt l f)
      have n2: "n - fn \<le> W" using nN fn by simp
      have "n - fn \<le> unat C" "n - fn \<le> length samples - fn"
        using nN nlen by arith+
      then have "0 + (n - fn) \<le> length b1 \<and> n - fn \<le> length (drop fn samples)"
        using b1n(1) lb by simp
      then have "memcpy_store b1 0 (drop fn samples) (n - fn) \<noteq> None"
        unfolding memcpy_store_def by (simp only: if_True) simp
      then obtain b2 where b2: "memcpy_store b1 0 (drop fn samples) (n - fn) = Some b2"
        by blast
      note b2n = memcpy_store_nth [OF b2]
      have "Write C rb samples len =
              Some (rb\<lparr>buffer := b2, writePos := of_nat ((W + n) mod ?N)\<rparr>, of_nat n)"
        using Wr l0 b1 b2 lf True C0 wp l' ulf by (simp add: f W_def)
      moreover have lb2: "length b2 = ?N" using b2n(1) b1n(1) lb by simp
      moreover have "\<forall>i<n. b2 ! ((W + i) mod ?N) = samples ! i"
      proof (intro allI impI)
        fix i assume i: "i < n"
        show "b2 ! ((W + i) mod ?N) = samples ! i"
        proof (cases "i < fn")
          case True
          then have Wi: "W + i < ?N" using fn by arith
          then have m: "(W + i) mod ?N = W + i" by simp
          have "\<not> W + i < n - fn" using n2 by arith
          then have "b2 ! (W + i) = b1 ! (W + i)"
            using Wi b1n(1) lb by (simp add: b2n(2))
          also have "\<dots> = samples ! i" using True Wi lb by (simp add: b1n(2))
          finally show ?thesis using m by simp
        next
          case False
          then have e: "W + i = ?N + (i - fn)" using fn WN by arith
          have "(?N + (i - fn)) mod ?N = i - fn" using i nN by simp
          with e have m: "(W + i) mod ?N = i - fn" by (simp only:)
          have "i - fn < n - fn" "i - fn < ?N" using False i nN by arith+
          then have "b2 ! (i - fn) = drop fn samples ! (i - fn)"
            using b1n(1) lb by (simp add: b2n(2))
          also have "\<dots> = samples ! i" using False nlen i by simp
          finally show ?thesis using m by simp
        qed
      qed
      moreover have "\<forall>k<?N. (\<forall>i<n. k \<noteq> (W + i) mod ?N) \<longrightarrow> b2 ! k = buffer rb ! k"
      proof (intro allI impI)
        fix k assume k: "k < ?N" and ne: "\<forall>i<n. k \<noteq> (W + i) mod ?N"
        have 1: "\<not> k < n - fn"
        proof
          assume a: "k < n - fn"
          then have "k + fn < n" by simp
          moreover have e: "W + (k + fn) = ?N + k" using fn WN by arith
          have "(?N + k) mod ?N = k" using k by simp
          with e have "(W + (k + fn)) mod ?N = k" by (simp only:)
          ultimately show False using ne by metis
        qed
        have 2: "\<not> (W \<le> k \<and> k < W + fn)"
        proof
          assume "W \<le> k \<and> k < W + fn"
          then have "k - W < n" "k = (W + (k - W)) mod ?N" using fle k by auto
          with ne show False by blast
        qed
        have "b2 ! k = b1 ! k" using 1 k b1n(1) lb by (auto simp: b2n(2))
        also have "\<dots> = buffer rb ! k" using 2 k lb by (auto simp: b1n(2))
        finally show "b2 ! k = buffer rb ! k" .
      qed
      ultimately show ?thesis by blast
    qed
  qed
qed

lemma memcpy_load_Some:
  "off + n \<le> length buf \<Longrightarrow> memcpy_load buf off n = Some (take n (drop off buf))"
  by (simp add: memcpy_load_def)

lemma wrap_eq:
  "a < N \<Longrightarrow> b < N \<Longrightarrow> (a + b) mod N = (if a + b < N then a + b else a + b - N)" for N :: nat
  by (simp add: mod_if)

lemma Read_char:
  fixes rb :: "'a AudioRingBuffer" and len :: size_t
  assumes inv: "rb_inv C rb"
  defines "n \<equiv> min (unat len) (occupied C rb)"
  defines "R \<equiv> unat (readPos rb)"
  shows "Read C rb len =
           Some (rb\<lparr>readPos := of_nat ((R + n) mod unat C)\<rparr>,
                 map (\<lambda>i. buffer rb ! ((R + i) mod unat C)) [0..<n],
                 of_nat n)"
proof -
  let ?w = "writePos rb" and ?r = "readPos rb" and ?N = "unat C"
  from inv have C0: "C \<noteq> 0" and N63: "?N \<le> 2 ^ 63" and lb: "length (buffer rb) = ?N"
    and wC: "?w < C" and rC: "?r < C"
    by (auto simp: rb_inv_def)
  have RN: "R < ?N" using rC by (simp add: R_def word_less_nat_alt)
  define av where "av = (if ?w \<ge> ?r then ?w - ?r else C - ?r + ?w)"
  define l where "l = (if av < len then av else len)"
  define f where "f = min l (C - ?r)"
  have Rd: "Read C rb len =
      (if l = 0 then Some (rb, [], 0)
       else case memcpy_load (buffer rb) (unat ?r) (unat f) of
              None \<Rightarrow> None
            | Some d1 \<Rightarrow>
               (case (if l > f
                      then memcpy_load (buffer rb) 0 (unat (l - f))
                      else Some []) of
                  None \<Rightarrow> None
                | Some d2 \<Rightarrow>
                    if C = 0 then None
                    else Some (rb\<lparr>readPos := (?r + l) mod C\<rparr>, d1 @ d2, l)))"
    unfolding Read_def Let_def av_def l_def f_def by (rule refl)
  have av: "unat av = occupied C rb"
    by (simp add: av_def occupied_def Available_def)
  have l: "unat l = n"
    by (simp add: l_def n_def av word_less_nat_alt min_def)
  then have l': "l = of_nat n" by (rule word_eq_of_nat)
  have nN: "n < ?N" using occupied_less [OF wC rC] by (simp add: n_def)
  show ?thesis
  proof (cases "n = 0")
    case True
    then have "l = 0" using l by (simp add: unat_eq_zero)
    moreover have "rb\<lparr>readPos := of_nat (R mod ?N)\<rparr> = rb"
      using RN by (simp add: R_def)
    ultimately show ?thesis using True Rd by simp
  next
    case False
    then have l0: "l \<noteq> 0" using l by (auto simp: unat_eq_zero)
    have CR: "unat (C - ?r) = ?N - R"
      using rC by (simp add: unat_sub R_def)
    define fn where "fn = min n (?N - R)"
    have f: "unat f = fn" by (simp add: f_def fn_def unat_min_word l CR)
    have fle: "fn \<le> n" "R + fn \<le> ?N" using RN by (simp_all add: fn_def)
    have d1: "memcpy_load (buffer rb) R fn = Some (take fn (drop R (buffer rb)))"
      using fle lb by (intro memcpy_load_Some) simp
    have lf: "l > f \<longleftrightarrow> n > fn" by (simp add: word_less_nat_alt l f)
    have rp: "(?r + l) mod C = of_nat ((R + n) mod ?N)"
    proof -
      have "unat ((?r + l) mod C) = (R + n) mod ?N"
        unfolding R_def l [symmetric]
        using RN N63 nN by (intro unat_add_mod) (simp_all add: R_def l)
      then show ?thesis by (rule word_eq_of_nat)
    qed
    show ?thesis
    proof (cases "n > fn")
      case False
      then have nf: "fn = n" using fle by simp
      then have nR: "R + n \<le> ?N" using fle by simp
      have "take n (drop R (buffer rb)) = map (\<lambda>i. buffer rb ! ((R + i) mod ?N)) [0..<n]"
        using nR lb by (intro nth_equalityI) simp_all
      moreover have "Read C rb len =
              Some (rb\<lparr>readPos := of_nat ((R + n) mod ?N)\<rparr>,
                    take n (drop R (buffer rb)), of_nat n)"
        using Rd l0 d1 lf False C0 rp l' nf by (simp add: f R_def)
      ultimately show ?thesis by simp
    next
      case True
      then have fn: "fn = ?N - R" by (simp add: fn_def)
      have ulf: "unat (l - f) = n - fn"
        using True by (simp add: unat_sub word_le_nat_alt l f)
      have "0 + (n - fn) \<le> length (buffer rb)" using nN lb by arith
      then have d2: "memcpy_load (buffer rb) 0 (n - fn) = Some (take (n - fn) (drop 0 (buffer rb)))"
        by (rule memcpy_load_Some)
      have "take fn (drop R (buffer rb)) @ take (n - fn) (buffer rb)
              = map (\<lambda>i. buffer rb ! ((R + i) mod ?N)) [0..<n]"
      proof (intro nth_equalityI allI impI)
        show "length (take fn (drop R (buffer rb)) @ take (n - fn) (buffer rb))
                = length (map (\<lambda>i. buffer rb ! ((R + i) mod ?N)) [0..<n])"
          using fn lb nN True by simp
      next
        fix i
        assume "i < length (take fn (drop R (buffer rb)) @ take (n - fn) (buffer rb))"
        then have i: "i < n" using fn lb nN True by simp
        have l1: "length (take fn (drop R (buffer rb))) = fn" using fn lb by simp
        show "(take fn (drop R (buffer rb)) @ take (n - fn) (buffer rb)) ! i
                = map (\<lambda>i. buffer rb ! ((R + i) mod ?N)) [0..<n] ! i"
        proof (cases "i < fn")
          case True
          then have "R + i < ?N" using fn by arith
          then show ?thesis using True i l1 lb by (simp add: nth_append)
        next
          case False
          then have e: "R + i = ?N + (i - fn)" using fn RN by arith
          have "(?N + (i - fn)) mod ?N = i - fn" using i nN by simp
          with e have m: "(R + i) mod ?N = i - fn" by (simp only:)
          have "i - fn < n - fn" using False i by arith
          then show ?thesis using False i l1 m by (simp add: nth_append)
        qed
      qed
      moreover have "Read C rb len =
              Some (rb\<lparr>readPos := of_nat ((R + n) mod ?N)\<rparr>,
                    take fn (drop R (buffer rb)) @ take (n - fn) (buffer rb), of_nat n)"
        using Rd l0 d1 d2 lf True C0 rp l' ulf by (simp add: f R_def)
      ultimately show ?thesis by simp
    qed
  qed
qed

lemma unat_of_nat_less: "x < unat (C::size_t) \<Longrightarrow> unat (of_nat x :: size_t) = x"
proof -
  assume "x < unat C"
  moreover have "unat C < 2 ^ LENGTH(64)" by (rule unsigned_less)
  ultimately have "x < 2 ^ LENGTH(64)" by (rule less_trans)
  then show ?thesis by (simp add: unat_of_nat)
qed

lemma length_pending [simp]: "length (pending C rb) = occupied C rb"
  by (simp add: pending_def)

lemma Write_pending:
  fixes rb :: "'a AudioRingBuffer"
  assumes inv: "rb_inv C rb" and len: "unat len \<le> length samples"
  defines "n \<equiv> min (unat len) (unat C - 1 - occupied C rb)"
  shows "\<exists>rb'. Write C rb samples len = Some (rb', of_nat n)
            \<and> rb_inv C rb' \<and> readPos rb' = readPos rb
            \<and> pending C rb' = pending C rb @ take n samples"
proof -
  let ?N = "unat C"
  define W where "W = unat (writePos rb)"
  define R where "R = unat (readPos rb)"
  from inv have N0: "0 < ?N" and N63: "?N \<le> 2 ^ 63" and lb: "length (buffer rb) = ?N"
    and wC: "writePos rb < C" and rC: "readPos rb < C"
    by (auto simp: rb_inv_def word_less_nat_alt)
  have WN: "W < ?N" and RN: "R < ?N"
    using wC rC by (simp_all add: W_def R_def word_less_nat_alt)
  from Write_char [OF inv len] obtain b' where
    wr: "Write C rb samples len =
           Some (rb\<lparr>buffer := b', writePos := of_nat ((W + n) mod ?N)\<rparr>, of_nat n)"
    and lb': "length b' = ?N"
    and new: "\<And>i. i < n \<Longrightarrow> b' ! ((W + i) mod ?N) = samples ! i"
    and old: "\<And>k. k < ?N \<Longrightarrow> (\<forall>i<n. k \<noteq> (W + i) mod ?N) \<Longrightarrow> b' ! k = buffer rb ! k"
    unfolding n_def W_def by blast
  define rb' where "rb' = rb\<lparr>buffer := b', writePos := of_nat ((W + n) mod ?N)\<rparr>"
  have occ: "occupied C rb = (if R \<le> W then W - R else ?N - R + W)"
    using occupied_eq [OF wC rC] by (simp add: W_def R_def)
  have nfree: "n \<le> ?N - 1 - occupied C rb" and nlen: "n \<le> length samples"
    using len by (simp_all add: n_def)
  have oN: "occupied C rb < ?N" using wC rC by (rule occupied_less)
  have nN: "n < ?N" using nfree N0 by arith
  have "(W + n) mod ?N < ?N" using N0 by simp
  then have "unat (of_nat ((W + n) mod ?N) :: size_t) = (W + n) mod ?N"
    by (rule unat_of_nat_less)
  then have W': "unat (writePos rb') = (W + n) mod ?N"
    by (simp add: rb'_def)
  have W'N: "writePos rb' < C"
    using N0 by (simp add: word_less_nat_alt W')
  have inv': "rb_inv C rb'"
    using inv W'N lb' by (simp add: rb_inv_def rb'_def)
  have r': "readPos rb' = readPos rb" by (simp add: rb'_def)
  have "occupied C rb' = (if R \<le> (W + n) mod ?N then (W + n) mod ?N - R
                          else ?N - R + (W + n) mod ?N)"
    using occupied_eq [of rb' C] W'N rC W' by (simp add: r' R_def)
  then have occ': "occupied C rb' = occupied C rb + n"
    using occ nfree WN RN nN oN by (auto simp: wrap_eq split: if_splits)
  have "pending C rb' = pending C rb @ take n samples"
  proof (intro nth_equalityI allI impI)
    show "length (pending C rb') = length (pending C rb @ take n samples)"
      using occ' nlen by simp
  next
    fix i assume "i < length (pending C rb')"
    then have i: "i < occupied C rb + n" using occ' by simp
    have iN: "i < ?N" using i nfree occupied_less [OF wC rC] by arith
    have p': "pending C rb' ! i = b' ! ((R + i) mod ?N)"
      using i occ' by (simp add: pending_def rb'_def R_def)
    show "pending C rb' ! i = (pending C rb @ take n samples) ! i"
    proof (cases "i < occupied C rb")
      case True
      have "\<forall>j<n. (R + i) mod ?N \<noteq> (W + j) mod ?N"
      proof (intro allI impI)
        fix j assume "j < n"
        then show "(R + i) mod ?N \<noteq> (W + j) mod ?N"
          using True occ nfree WN RN nN iN oN by (auto simp: wrap_eq split: if_splits)
      qed
      then have "b' ! ((R + i) mod ?N) = buffer rb ! ((R + i) mod ?N)"
        using N0 by (intro old) simp_all
      then show ?thesis using True p' by (simp add: nth_append pending_def R_def)
    next
      case False
      then have j: "i - occupied C rb < n" using i by arith
      have "(R + i) mod ?N = (W + (i - occupied C rb)) mod ?N"
        using False j occ nfree WN RN nN iN oN by (auto simp: wrap_eq split: if_splits)
      then have "b' ! ((R + i) mod ?N) = samples ! (i - occupied C rb)"
        using new [OF j] by simp
      then show ?thesis using False p' j by (simp add: nth_append)
    qed
  qed
  with wr inv' r' show ?thesis unfolding rb'_def by blast
qed

lemma Read_pending:
  fixes rb :: "'a AudioRingBuffer" and len :: size_t
  assumes inv: "rb_inv C rb"
  defines "n \<equiv> min (unat len) (occupied C rb)"
  shows "\<exists>rb'. Read C rb len = Some (rb', take n (pending C rb), of_nat n)
            \<and> rb_inv C rb' \<and> writePos rb' = writePos rb \<and> buffer rb' = buffer rb
            \<and> pending C rb' = drop n (pending C rb)"
proof -
  let ?N = "unat C"
  define W where "W = unat (writePos rb)"
  define R where "R = unat (readPos rb)"
  from inv have N0: "0 < ?N" and lb: "length (buffer rb) = ?N"
    and wC: "writePos rb < C" and rC: "readPos rb < C"
    by (auto simp: rb_inv_def word_less_nat_alt)
  have WN: "W < ?N" and RN: "R < ?N"
    using wC rC by (simp_all add: W_def R_def word_less_nat_alt)
  define rb' where "rb' = rb\<lparr>readPos := of_nat ((R + n) mod ?N)\<rparr>"
  have rd: "Read C rb len =
              Some (rb', map (\<lambda>i. buffer rb ! ((R + i) mod ?N)) [0..<n], of_nat n)"
    using Read_char [OF inv, of len] by (simp add: n_def R_def rb'_def)
  have occ: "occupied C rb = (if R \<le> W then W - R else ?N - R + W)"
    using occupied_eq [OF wC rC] by (simp add: W_def R_def)
  have nocc: "n \<le> occupied C rb" by (simp add: n_def)
  have nN: "n < ?N" using nocc occupied_less [OF wC rC] by arith
  have "(R + n) mod ?N < ?N" using N0 by simp
  then have "unat (of_nat ((R + n) mod ?N) :: size_t) = (R + n) mod ?N"
    by (rule unat_of_nat_less)
  then have R': "unat (readPos rb') = (R + n) mod ?N"
    by (simp add: rb'_def)
  have R'N: "readPos rb' < C"
    using N0 by (simp add: word_less_nat_alt R')
  have inv': "rb_inv C rb'"
    using inv R'N by (simp add: rb_inv_def rb'_def)
  have w': "writePos rb' = writePos rb" "buffer rb' = buffer rb" by (simp_all add: rb'_def)
  have "occupied C rb' = (if (R + n) mod ?N \<le> W then W - (R + n) mod ?N
                          else ?N - (R + n) mod ?N + W)"
    using occupied_eq [of rb' C] R'N wC R' by (simp add: w' W_def)
  then have occ': "occupied C rb' = occupied C rb - n"
    using occ nocc WN RN nN by (auto simp: wrap_eq split: if_splits)
  have out: "map (\<lambda>i. buffer rb ! ((R + i) mod ?N)) [0..<n] = take n (pending C rb)"
    using nocc by (simp add: pending_def take_map R_def)
  have "pending C rb' = drop n (pending C rb)"
  proof (intro nth_equalityI allI impI)
    show "length (pending C rb') = length (drop n (pending C rb))"
      using occ' by simp
  next
    fix i assume "i < length (pending C rb')"
    then have i: "i < occupied C rb - n" using occ' by simp
    have "((R + n) mod ?N + i) mod ?N = (R + (n + i)) mod ?N"
      by (simp add: mod_add_left_eq add.assoc)
    moreover have "n + i < occupied C rb" using i by arith
    ultimately show "pending C rb' ! i = drop n (pending C rb) ! i"
      using i occ' nocc R' by (simp add: pending_def w' R_def)
  qed
  with rd out inv' w' show ?thesis by auto
qed

lemma rb_inv_new: "0 < C \<Longrightarrow> unat C \<le> 2 ^ 63 \<Longrightarrow> rb_inv C (AudioRingBuffer_new C)"
  by (simp add: rb_inv_def AudioRingBuffer_new_def)

lemma occupied_zero: "readPos rb = writePos rb \<Longrightarrow> occupied C rb = 0"
  by (simp add: occupied_def Available_def)

lemma pending_new: "pending C (AudioRingBuffer_new C) = []"
  by (simp add: pending_def occupied_zero AudioRingBuffer_new_def)

lemma rb_inv_Clear: "rb_inv C rb \<Longrightarrow> rb_inv C (Clear rb)"
  by (simp add: rb_inv_def Clear_def)

lemma pending_Clear: "pending C (Clear rb) = []"
  by (simp add: pending_def occupied_zero Clear_def)

lemma rb_step_fifo:
  assumes inv: "rb_inv C rb" and fit: "within_capacity (unat C) (pending C rb) [op]"
  shows "\<exists>rb'. rb_step C rb op = Some (rb', snd (fifo_step (pending C rb) op))
            \<and> rb_inv C rb' \<and> pending C rb' = fst (fifo_step (pending C rb) op)"
proof (cases op)
  case (OpWrite samples len)
  with fit have len: "unat len \<le> length samples"
    and room: "occupied C rb + unat len \<le> unat C - 1" by simp_all
  then have m: "min (unat len) (unat C - 1 - occupied C rb) = unat len" by arith
  from Write_pending [OF inv len] obtain rb' where
    "Write C rb samples len = Some (rb', of_nat (unat len))" "rb_inv C rb'"
    "pending C rb' = pending C rb @ take (unat len) samples"
    unfolding m by blast
  then show ?thesis using OpWrite by simp
next
  case (OpRead len)
  from Read_pending [OF inv, of len] obtain rb' where
    "Read C rb len = Some (rb', take (min (unat len) (occupied C rb)) (pending C rb),
                           of_nat (min (unat len) (occupied C rb)))"
    "rb_inv C rb'"
    "pending C rb' = drop (min (unat len) (occupied C rb)) (pending C rb)"
    by blast
  moreover have "take (min (unat len) (occupied C rb)) (pending C rb)
                   = take (unat len) (pending C rb)"
    by (simp add: min_def)
  moreover have "drop (min (unat len) (occupied C rb)) (pending C rb)
                   = drop (unat len) (pending C rb)"
    by (simp add: min_def)
  ultimately show ?thesis using OpRead by simp
next
  case OpClear
  then show ?thesis using inv by (simp add: rb_inv_Clear pending_Clear)
qed

lemma within_capacity_Cons:
  "within_capacity N q (op # ops) \<longleftrightarrow>
     within_capacity N q [op] \<and> within_capacity N (fst (fifo_step q op)) ops"
  by (cases op) auto

lemma rb_run_fifo:
  "rb_inv C rb \<Longrightarrow> within_capacity (unat C) (pending C rb) ops \<Longrightarrow>
     \<exists>rb'. rb_run C rb ops = Some (rb', fifo_run (pending C rb) ops) \<and> rb_inv C rb'"
proof (induction ops arbitrary: rb)
  case Nil
  then show ?case by simp
next
  case (Cons op ops)
  from Cons.prems(2) have 1: "within_capacity (unat C) (pending C rb) [op]"
    and 2: "within_capacity (unat C) (fst (fifo_step (pending C rb) op)) ops"
    by (simp_all only: within_capacity_Cons [of _ _ op ops])
  from rb_step_fifo [OF Cons.prems(1) 1] obtain rb1 where
    s: "rb_step C rb op = Some (rb1, snd (fifo_step (pending C rb) op))"
    and i: "rb_inv C rb1" and p: "pending C rb1 = fst (fifo_step (pending C rb) op)"
    by blast
  from Cons.IH [OF i] 2 p obtain rb2 where
    "rb_run C rb1 ops = Some (rb2, fifo_run (pending C rb1) ops)" "rb_inv C rb2"
    by auto
  with s p show ?case by simp
qed

lemma unat_free_word:
  assumes "rb_inv C rb"
  shows "unat (C - 1 - Available C rb) = unat C - 1 - occupied C rb"
proof -
  from assms have C0: "C \<noteq> 0" and wC: "writePos rb < C" and rC: "readPos rb < C"
    by (auto simp: rb_inv_def)
  have 1: "unat (C - 1) = unat C - 1" using C0 by (rule unat_sub_one)
  have "occupied C rb \<le> unat C - 1" using occupied_less [OF wC rC] by arith
  then have "Available C rb \<le> C - 1" by (simp add: word_le_nat_alt 1 occupied_def)
  then have "unat (C - 1 - Available C rb) = unat (C - 1) - unat (Available C rb)"
    by (rule unat_sub)
  then show ?thesis using 1 by (simp add: occupied_def)
qed

lemma rb_step_inv:
  assumes inv: "rb_inv C rb" and wf: "wf_op op"
  shows "\<exists>rb' res. rb_step C rb op = Some (rb', res) \<and> rb_inv C rb'"
proof (cases op)
  case (OpWrite samples len)
  with wf have "unat len \<le> length samples" by simp
  from Write_pending [OF inv this] show ?thesis using OpWrite by auto
next
  case (OpRead len)
  from Read_pending [OF inv, of len] show ?thesis using OpRead by auto
next
  case OpClear
  then show ?thesis using inv by (simp add: rb_inv_Clear)
qed

lemma rb_run_inv:
  "rb_inv C rb \<Longrightarrow> list_all wf_op ops \<Longrightarrow>
     \<exists>rb' ress. rb_run C rb ops = Some (rb', ress) \<and> rb_inv C rb'"
proof (induction ops arbitrary: rb)
  case Nil
  then show ?case by simp
next
  case (Cons op ops)
  then have "wf_op op" and rest: "list_all wf_op ops" by simp_all
  from rb_step_inv [OF Cons.prems(1) this(1)] obtain rb1 res where
    s: "rb_step C rb op = Some (rb1, res)" and i: "rb_inv C rb1" by blast
  from Cons.IH [OF i rest] obtain rb2 ress where
    "rb_run C rb1 ops = Some (rb2, ress)" "rb_inv C rb2" by blast
  with s show ?case by simp
qed

lemma empty_iff_cursors_equal:
  assumes "writePos rb < C" "readPos rb < C"
  shows "Available C rb = 0 \<longleftrightarrow> writePos rb = readPos rb"
proof -
  have "Available C rb = 0 \<longleftrightarrow> occupied C rb = 0"
    by (simp add: occupied_def unat_eq_zero)
  also have "\<dots> \<longleftrightarrow> unat (writePos rb) = unat (readPos rb)"
    using assms by (auto simp: occupied_eq word_less_nat_alt)
  finally show ?thesis by (simp add: word_unat_eq_iff)
qed

lemma Write_new_10_fill:
  "length d1 = 9 \<Longrightarrow>
     Write 10 (AudioRingBuffer_new 10) d1 9
       = Some (\<lparr>buffer = d1 @ [0], writePos = 9, readPos = 0\<rparr>, 9)"
  by (simp add: Write_def AudioRingBuffer_new_def memcpy_store_def Let_def)

lemma Write_full_10:
  "Write 10 \<lparr>buffer = b, writePos = 9, readPos = 0\<rparr> samples len
     = Some (\<lparr>buffer = b, writePos = 9, readPos = 0\<rparr>, 0)"
  by (simp add: Write_def Let_def word_gt_0)

lemma Available_full_10: "Available 10 \<lparr>buffer = b, writePos = 9, readPos = 0\<rparr> = 9"
  by (simp add: Available_def Let_def)

lemma Read_full_10_one:
  "Read 10 \<lparr>buffer = a # b, writePos = 9, readPos = 0\<rparr> 1
     = Some (\<lparr>buffer = a # b, writePos = 9, readPos = 1\<rparr>, [a], 1)"
  by (simp add: Read_def memcpy_load_def Let_def)

lemma Write_after_Read_10:
  "length b = 10 \<Longrightarrow>
     Write 10 \<lparr>buffer = b, writePos = 9, readPos = 1\<rparr> (x # xs) 5
       = Some (\<lparr>buffer = take 9 b @ [x], writePos = 0, readPos = 1\<rparr>, 1)"
  by (simp add: Write_def memcpy_store_def Let_def)

lemma BUFFER_SIZE_src_admissible:
  "0 < BUFFER_SIZE_src \<and> unat BUFFER_SIZE_src \<le> 2 ^ 63"
  by (simp add: BUFFER_SIZE_src_def)

lemma Write_raises_Available:
  fixes rb :: "'a AudioRingBuffer"
  assumes inv: "rb_inv C rb" and len: "unat len \<le> length samples"
  shows "\<exists>rb' k. Write C rb samples len = Some (rb', k)
            \<and> rb_inv C rb'
            \<and> Available C rb' = Available C rb + k
            \<and> (k \<noteq> 0 \<longrightarrow> writePos rb' \<noteq> readPos rb')"
proof -
  define n where "n = min (unat len) (unat C - 1 - occupied C rb)"
  from Write_pending [OF inv len] obtain rb' where
    wr: "Write C rb samples len = Some (rb', of_nat n)" and inv': "rb_inv C rb'"
    and p': "pending C rb' = pending C rb @ take n samples"
    unfolding n_def by blast
  from inv have wC: "writePos rb < C" and rC: "readPos rb < C"
    by (auto simp: rb_inv_def)
  from inv' have wC': "writePos rb' < C" and rC': "readPos rb' < C"
    by (auto simp: rb_inv_def)
  have oN: "occupied C rb < unat C" using wC rC by (rule occupied_less)
  have nlen: "n \<le> length samples" using len by (simp add: n_def)
  have nfree: "n \<le> unat C - 1 - occupied C rb" by (simp add: n_def)
  have occ': "occupied C rb' = occupied C rb + n"
    using arg_cong [OF p', of length] nlen by simp
  have nN: "n < unat C" using nfree oN by arith
  then have un: "unat (of_nat n :: size_t) = n" by (rule unat_of_nat_less)
  have "occupied C rb + n < unat C" using nfree oN by arith
  moreover have "unat C < 2 ^ LENGTH(64)" by (rule unsigned_less)
  ultimately have "unat (Available C rb) + unat (of_nat n :: size_t) < 2 ^ LENGTH(64)"
    using un by (simp add: occupied_def)
  then have "unat (Available C rb + of_nat n) = unat (Available C rb) + unat (of_nat n :: size_t)"
    by (simp only: unat_add_lem)
  then have "unat (Available C rb') = unat (Available C rb + of_nat n)"
    using occ' un by (simp add: occupied_def)
  then have av: "Available C rb' = Available C rb + of_nat n"
    by (simp only: word_unat_eq_iff)
  have "writePos rb' \<noteq> readPos rb'" if "(of_nat n :: size_t) \<noteq> 0"
  proof -
    from that have "n \<noteq> 0" by (cases "n = 0") simp_all
    then have "occupied C rb' \<noteq> 0" using occ' by simp
    then have "Available C rb' \<noteq> 0" by (simp add: occupied_def unat_eq_zero)
    then show ?thesis using empty_iff_cursors_equal [OF wC' rC'] by simp
  qed
  with wr inv' av show ?thesis by blast
qed

lemma Read_lowers_Available:
  fixes rb :: "'a AudioRingBuffer" and len :: size_t
  assumes inv: "rb_inv C rb"
  shows "\<exists>rb' dest k. Read C rb len = Some (rb', dest, k)
            \<and> rb_inv C rb'
            \<and> k \<le> Available C rb
            \<and> Available C rb' = Available C rb - k"
proof -
  define n where "n = min (unat len) (occupied C rb)"
  from Read_pending [OF inv, of len] obtain rb' where
    rd: "Read C rb len = Some (rb', take n (pending C rb), of_nat n)"
    and inv': "rb_inv C rb'"
    and p': "pending C rb' = drop n (pending C rb)"
    unfolding n_def by blast
  from inv have wC: "writePos rb < C" and rC: "readPos rb < C"
    by (auto simp: rb_inv_def)
  have oN: "occupied C rb < unat C" using wC rC by (rule occupied_less)
  have nocc: "n \<le> occupied C rb" by (simp add: n_def)
  have occ': "occupied C rb' = occupied C rb - n"
    using arg_cong [OF p', of length] by simp
  have "n < unat C" using nocc oN by arith
  then have un: "unat (of_nat n :: size_t) = n" by (rule unat_of_nat_less)
  have le: "(of_nat n :: size_t) \<le> Available C rb"
    using nocc un by (simp add: word_le_nat_alt occupied_def)
  then have "unat (Available C rb - of_nat n) = unat (Available C rb) - unat (of_nat n :: size_t)"
    by (rule unat_sub)
  then have "unat (Available C rb') = unat (Available C rb - of_nat n)"
    using occ' un by (simp add: occupied_def)
  then have "Available C rb' = Available C rb - of_nat n"
    by (simp only: word_unat_eq_iff)
  with rd inv' le show ?thesis by blast
qed

lemma Available_le:
  assumes "rb_inv C rb"
  shows "Available C rb \<le> C - 1"
proof -
  from assms have C0: "C \<noteq> 0" and wC: "writePos rb < C" and rC: "readPos rb < C"
    by (auto simp: rb_inv_def)
  have "unat (C - 1) = unat C - 1" using C0 by (rule unat_sub_one)
  moreover have "occupied C rb \<le> unat C - 1" using occupied_less [OF wC rC] by arith
  ultimately show ?thesis by (simp add: word_le_nat_alt occupied_def)
qed

subsection \<open>The claims about the ring buffer\<close>

text \<open>
  Claim C1. Take a buffer of capacity \<open>C\<close>, freshly constructed, and any sequence of
  \<^verbatim>\<open>Write\<close> and \<^verbatim>\<open>Read\<close> calls (and \<^verbatim>\<open>Clear\<close> calls, which empty it) along which
  the samples written and not yet read never exceed \<open>C - 1\<close>. Then every call returns,
  every write accepts all its samples, and every read returns exactly what the
  first-in first-out queue of the specification returns: the oldest outstanding samples,
  in the order they were written, whether or not a copy wraps past the end of the
  storage.
\<close>

theorem ring_buffer_fifo:
  assumes "0 < C" and "unat C \<le> 2 ^ 63" and "within_capacity (unat C) [] ops"
  shows "\<exists>rb'. rb_run C (AudioRingBuffer_new C :: ('a::zero) AudioRingBuffer) ops
                  = Some (rb', fifo_run [] ops)"
  using rb_run_fifo [OF rb_inv_new [OF assms(1,2)], of ops] assms(3)
  by (auto simp: pending_new)

theorem ring_buffer_fifo_witness:
  "(0::size_t) < 4 \<and> unat (4::size_t) \<le> 2 ^ 63
   \<and> within_capacity (unat (4::size_t)) []
        [OpWrite [1, 2, 3 :: int] 3, OpRead 2, OpWrite [4, 5] 2, OpRead 3]
   \<and> (\<exists>rb'. rb_run 4 (AudioRingBuffer_new 4)
               [OpWrite [1, 2, 3 :: int] 3, OpRead 2, OpWrite [4, 5] 2, OpRead 3]
             = Some (rb', [Written 3, ReadOut [1, 2] 2, Written 2, ReadOut [3, 4, 5] 3]))"
proof -
  have h: "(0::size_t) < 4" "unat (4::size_t) \<le> 2 ^ 63"
    "within_capacity (unat (4::size_t)) []
        [OpWrite [1, 2, 3 :: int] 3, OpRead 2, OpWrite [4, 5] 2, OpRead 3]"
    by simp_all
  from ring_buffer_fifo [OF h] h show ?thesis by simp
qed

text \<open>
  Claim C2. On a well-formed buffer holding \<open>Available()\<close> samples the free space is
  \<open>C - 1 - Available()\<close>. A \<^verbatim>\<open>Write\<close> of more samples than that returns normally with
  exactly that count, stores the leading samples of \<^verbatim>\<open>data\<close> in the cells that follow
  the write cursor (wrapping at the end of the storage), leaves every other cell and the
  read cursor alone, and leaves the buffer full; the trailing samples of \<^verbatim>\<open>data\<close> are
  not stored anywhere.
\<close>

theorem Write_truncates_to_free_space:
  fixes rb :: "'a AudioRingBuffer"
  assumes inv: "rb_inv C rb" and len: "unat len \<le> length samples"
    and over: "C - 1 - Available C rb < len"
  shows "\<exists>rb'. Write C rb samples len = Some (rb', C - 1 - Available C rb)
            \<and> readPos rb' = readPos rb
            \<and> (\<forall>i < unat (C - 1 - Available C rb).
                   buffer rb' ! ((unat (writePos rb) + i) mod unat C) = samples ! i)
            \<and> (\<forall>k < unat C.
                   (\<forall>i < unat (C - 1 - Available C rb).
                       k \<noteq> (unat (writePos rb) + i) mod unat C)
                   \<longrightarrow> buffer rb' ! k = buffer rb ! k)
            \<and> pending C rb' = pending C rb @ take (unat (C - 1 - Available C rb)) samples
            \<and> Available C rb' = C - 1"
proof -
  define n where "n = unat C - 1 - occupied C rb"
  have fr: "unat (C - 1 - Available C rb) = n"
    using unat_free_word [OF inv] by (simp add: n_def)
  then have frw: "C - 1 - Available C rb = of_nat n" by (rule word_eq_of_nat)
  have m: "min (unat len) (unat C - 1 - occupied C rb) = n"
    using over by (simp add: word_less_nat_alt fr n_def)
  from inv have C0: "C \<noteq> 0" and wC: "writePos rb < C" and rC: "readPos rb < C"
    by (auto simp: rb_inv_def)
  from Write_char [OF inv len] obtain b' where
    wr: "Write C rb samples len =
           Some (rb\<lparr>buffer := b',
                    writePos := of_nat ((unat (writePos rb) + n) mod unat C)\<rparr>, of_nat n)"
    and new: "\<forall>i<n. b' ! ((unat (writePos rb) + i) mod unat C) = samples ! i"
    and old: "\<forall>k<unat C. (\<forall>i<n. k \<noteq> (unat (writePos rb) + i) mod unat C)
                 \<longrightarrow> b' ! k = buffer rb ! k"
    unfolding m by blast
  from Write_pending [OF inv len] obtain rb' where
    wr': "Write C rb samples len = Some (rb', of_nat n)" and inv': "rb_inv C rb'"
    and r': "readPos rb' = readPos rb"
    and p': "pending C rb' = pending C rb @ take n samples"
    unfolding m by blast
  from wr wr' have b: "buffer rb' = b'" by auto
  have nlen: "n \<le> length samples" using m len by arith
  have "occupied C rb' = occupied C rb + n"
    using arg_cong [OF p', of length] nlen by simp
  moreover have "occupied C rb < unat C" using wC rC by (rule occupied_less)
  ultimately have "occupied C rb' = unat C - 1" by (simp add: n_def)
  moreover have "unat (C - 1) = unat C - 1" using C0 by (rule unat_sub_one)
  ultimately have "unat (Available C rb') = unat (C - 1)" by (simp add: occupied_def)
  then have "Available C rb' = C - 1" by (simp only: word_unat_eq_iff)
  moreover have un: "unat (of_nat n :: size_t) = n" using fr frw by simp
  ultimately show ?thesis using wr' r' new old p' b unfolding frw un by blast
qed

theorem Write_truncates_to_free_space_witness:
  "rb_inv 4 (AudioRingBuffer_new 4 :: int AudioRingBuffer)
   \<and> unat (5 :: size_t) \<le> length [1, 2, 3, 4, 5 :: int]
   \<and> 4 - 1 - Available 4 (AudioRingBuffer_new 4 :: int AudioRingBuffer) < 5
   \<and> (\<exists>rb'. Write 4 (AudioRingBuffer_new 4) [1, 2, 3, 4, 5 :: int] 5 = Some (rb', 3)
             \<and> pending 4 rb' = [1, 2, 3] \<and> Available 4 rb' = 3)"
proof -
  have h: "rb_inv 4 (AudioRingBuffer_new 4 :: int AudioRingBuffer)"
    "unat (5 :: size_t) \<le> length [1, 2, 3, 4, 5 :: int]"
    "4 - 1 - Available 4 (AudioRingBuffer_new 4 :: int AudioRingBuffer) < 5"
    by (simp_all add: rb_inv_def AudioRingBuffer_new_def Available_def)
  have a: "Available 4 (AudioRingBuffer_new 4 :: int AudioRingBuffer) = 0"
    by (simp add: AudioRingBuffer_new_def Available_def)
  have "pending 4 (AudioRingBuffer_new 4 :: int AudioRingBuffer) = []"
    by (rule pending_new)
  with Write_truncates_to_free_space [OF h] h a show ?thesis
    by auto
qed

text \<open>
  Claim C5. With capacity 10 and an empty buffer, a \<^verbatim>\<open>Write\<close> of nine samples accepts all
  nine; a following \<^verbatim>\<open>Write\<close> of five samples returns 0 and changes nothing,
  \<^verbatim>\<open>Available()\<close> is still 9, and in that state every \<^verbatim>\<open>Write\<close> whatsoever returns 0.
  Once a \<^verbatim>\<open>Read\<close> has taken one sample out, the \<^verbatim>\<open>Write\<close> of five samples accepts
  one.
\<close>

theorem overflow_truncation_capacity_10:
  fixes a1 :: "'a::zero"
  shows "Write 10 (AudioRingBuffer_new 10) [a1, a2, a3, a4, a5, a6, a7, a8, a9] 9
           = Some (\<lparr>buffer = [a1, a2, a3, a4, a5, a6, a7, a8, a9, 0],
                    writePos = 9, readPos = 0\<rparr>, 9)
       \<and> Write 10 \<lparr>buffer = [a1, a2, a3, a4, a5, a6, a7, a8, a9, 0],
                    writePos = 9, readPos = 0\<rparr> [b1, b2, b3, b4, b5] 5
           = Some (\<lparr>buffer = [a1, a2, a3, a4, a5, a6, a7, a8, a9, 0],
                    writePos = 9, readPos = 0\<rparr>, 0)
       \<and> Available 10 \<lparr>buffer = [a1, a2, a3, a4, a5, a6, a7, a8, a9, 0],
                        writePos = 9, readPos = 0\<rparr> = 9
       \<and> (\<forall>samples len.
             Write 10 \<lparr>buffer = [a1, a2, a3, a4, a5, a6, a7, a8, a9, 0],
                       writePos = 9, readPos = 0\<rparr> samples len
               = Some (\<lparr>buffer = [a1, a2, a3, a4, a5, a6, a7, a8, a9, 0],
                        writePos = 9, readPos = 0\<rparr>, 0))
       \<and> Read 10 \<lparr>buffer = [a1, a2, a3, a4, a5, a6, a7, a8, a9, 0],
                   writePos = 9, readPos = 0\<rparr> 1
           = Some (\<lparr>buffer = [a1, a2, a3, a4, a5, a6, a7, a8, a9, 0],
                    writePos = 9, readPos = 1\<rparr>, [a1], 1)
       \<and> Write 10 \<lparr>buffer = [a1, a2, a3, a4, a5, a6, a7, a8, a9, 0],
                    writePos = 9, readPos = 1\<rparr> [b1, b2, b3, b4, b5] 5
           = Some (\<lparr>buffer = [a1, a2, a3, a4, a5, a6, a7, a8, a9, b1],
                    writePos = 0, readPos = 1\<rparr>, 1)"
proof -
  have "length [a1, a2, a3, a4, a5, a6, a7, a8, a9] = 9" by simp
  from Write_new_10_fill [OF this]
  have 1: "Write 10 (AudioRingBuffer_new 10) [a1, a2, a3, a4, a5, a6, a7, a8, a9] 9
             = Some (\<lparr>buffer = [a1, a2, a3, a4, a5, a6, a7, a8, a9, 0],
                      writePos = 9, readPos = 0\<rparr>, 9)"
    by simp
  have "length [a1, a2, a3, a4, a5, a6, a7, a8, a9, 0] = 10" by simp
  from Write_after_Read_10 [OF this, of b1 "[b2, b3, b4, b5]"]
  have 2: "Write 10 \<lparr>buffer = [a1, a2, a3, a4, a5, a6, a7, a8, a9, 0],
                      writePos = 9, readPos = 1\<rparr> [b1, b2, b3, b4, b5] 5
             = Some (\<lparr>buffer = [a1, a2, a3, a4, a5, a6, a7, a8, a9, b1],
                      writePos = 0, readPos = 1\<rparr>, 1)"
    by simp
  from 1 2 show ?thesis
    by (simp only: Write_full_10 Available_full_10 Read_full_10_one simp_thms)
qed

text \<open>
  Claim C6. After every sequence of well-formed \<^verbatim>\<open>Write\<close>, \<^verbatim>\<open>Read\<close> and \<^verbatim>\<open>Clear\<close>
  calls on a freshly constructed buffer, every call has returned, both cursors are below
  the capacity, at most \<open>C - 1\<close> samples are occupied, and the buffer reads as empty
  exactly when the cursors coincide. From the state reached, every well-formed
  \<^verbatim>\<open>Write\<close> returns a count \<open>k\<close>, raises the occupied count by exactly \<open>k\<close> without
  passing \<open>C - 1\<close>, and, when it has accepted anything, leaves the write cursor
  different from the read cursor: a write never fills the last slot, so a buffer that
  holds samples is never taken for an empty one. Every \<^verbatim>\<open>Read\<close> returns a count no larger
  than the occupied count and lowers the occupied count by exactly that count.
\<close>

theorem cursors_stay_in_range:
  assumes "0 < C" and "unat C \<le> 2 ^ 63" and "list_all wf_op ops"
  shows "\<exists>rb' ress. rb_run C (AudioRingBuffer_new C :: ('a::zero) AudioRingBuffer) ops
                        = Some (rb', ress)
            \<and> writePos rb' < C \<and> readPos rb' < C
            \<and> Available C rb' \<le> C - 1
            \<and> (Available C rb' = 0 \<longleftrightarrow> writePos rb' = readPos rb')
            \<and> (\<forall>samples len. unat len \<le> length samples \<longrightarrow>
                  (\<exists>rb'' k. Write C rb' samples len = Some (rb'', k)
                      \<and> Available C rb'' = Available C rb' + k
                      \<and> Available C rb'' \<le> C - 1
                      \<and> (k \<noteq> 0 \<longrightarrow> writePos rb'' \<noteq> readPos rb'')))
            \<and> (\<forall>len. \<exists>rb'' dest k. Read C rb' len = Some (rb'', dest, k)
                      \<and> k \<le> Available C rb'
                      \<and> Available C rb'' = Available C rb' - k)"
proof -
  from rb_run_inv [OF rb_inv_new [OF assms(1,2)] assms(3)] obtain rb' ress where
    r: "rb_run C (AudioRingBuffer_new C :: 'a AudioRingBuffer) ops = Some (rb', ress)"
    and i: "rb_inv C rb'" by blast
  from i have wC: "writePos rb' < C" and rC: "readPos rb' < C"
    by (auto simp: rb_inv_def)
  have a: "Available C rb' \<le> C - 1" using i by (rule Available_le)
  have e: "Available C rb' = 0 \<longleftrightarrow> writePos rb' = readPos rb'"
    using wC rC by (rule empty_iff_cursors_equal)
  have w: "\<forall>samples len. unat len \<le> length samples \<longrightarrow>
             (\<exists>rb'' k. Write C rb' samples len = Some (rb'', k)
                 \<and> Available C rb'' = Available C rb' + k
                 \<and> Available C rb'' \<le> C - 1
                 \<and> (k \<noteq> 0 \<longrightarrow> writePos rb'' \<noteq> readPos rb''))"
  proof (intro allI impI)
    fix samples :: "'a list" and len :: size_t
    assume "unat len \<le> length samples"
    from Write_raises_Available [OF i this] obtain rb'' k where
      "Write C rb' samples len = Some (rb'', k)" "rb_inv C rb''"
      "Available C rb'' = Available C rb' + k"
      "k \<noteq> 0 \<longrightarrow> writePos rb'' \<noteq> readPos rb''"
      by blast
    moreover from this(2) have "Available C rb'' \<le> C - 1" by (rule Available_le)
    ultimately show "\<exists>rb'' k. Write C rb' samples len = Some (rb'', k)
                 \<and> Available C rb'' = Available C rb' + k
                 \<and> Available C rb'' \<le> C - 1
                 \<and> (k \<noteq> 0 \<longrightarrow> writePos rb'' \<noteq> readPos rb'')"
      by blast
  qed
  have d: "\<forall>len. \<exists>rb'' dest k. Read C rb' len = Some (rb'', dest, k)
                      \<and> k \<le> Available C rb'
                      \<and> Available C rb'' = Available C rb' - k"
    using Read_lowers_Available [OF i] by blast
  from r wC rC a e w d show ?thesis by blast
qed

theorem cursors_stay_in_range_witness:
  "(0::size_t) < 4 \<and> unat (4::size_t) \<le> 2 ^ 63
   \<and> list_all wf_op [OpWrite [1, 2, 3 :: int] 3, OpRead 2, OpClear, OpWrite [4, 5, 6, 7] 4]
   \<and> (\<exists>rb' ress.
         rb_run 4 (AudioRingBuffer_new 4)
           [OpWrite [1, 2, 3 :: int] 3, OpRead 2, OpClear, OpWrite [4, 5, 6, 7] 4]
           = Some (rb', ress)
         \<and> writePos rb' < 4 \<and> readPos rb' < 4 \<and> Available 4 rb' \<le> 3
         \<and> (\<exists>rb'' k. Write 4 rb' [8, 9] 2 = Some (rb'', k)
                \<and> Available 4 rb'' = Available 4 rb' + k
                \<and> (k \<noteq> 0 \<longrightarrow> writePos rb'' \<noteq> readPos rb'')))"
proof -
  have h: "(0::size_t) < 4" "unat (4::size_t) \<le> 2 ^ 63"
    "list_all wf_op [OpWrite [1, 2, 3 :: int] 3, OpRead 2, OpClear, OpWrite [4, 5, 6, 7] 4]"
    by simp_all
  from cursors_stay_in_range [OF h] obtain rb' ress where
    r: "rb_run 4 (AudioRingBuffer_new 4)
          [OpWrite [1, 2, 3 :: int] 3, OpRead 2, OpClear, OpWrite [4, 5, 6, 7] 4]
          = Some (rb', ress)"
    and c: "writePos rb' < 4" "readPos rb' < 4" "Available 4 rb' \<le> 4 - 1"
    and w: "\<forall>samples len. unat len \<le> length samples \<longrightarrow>
             (\<exists>rb'' k. Write 4 rb' samples len = Some (rb'', k)
                 \<and> Available 4 rb'' = Available 4 rb' + k
                 \<and> Available 4 rb'' \<le> 4 - 1
                 \<and> (k \<noteq> 0 \<longrightarrow> writePos rb'' \<noteq> readPos rb''))"
    by blast
  have "unat (2 :: size_t) \<le> length [8, 9 :: int]" by simp
  with w have "\<exists>rb'' k. Write 4 rb' [8, 9] 2 = Some (rb'', k)
                 \<and> Available 4 rb'' = Available 4 rb' + k
                 \<and> (k \<noteq> 0 \<longrightarrow> writePos rb'' \<noteq> readPos rb'')"
    by blast
  with h r c show ?thesis by auto
qed

section \<open>Properties of the transcription worker\<close>

lemma worker_step_order:
  "worker_step w e = Some w' \<Longrightarrow>
     dispatched w' @ audioQueue w' = dispatched w @ audioQueue w @ enqueued [e]"
  by (cases e)
     (auto simp: EnqueueAudio_def worker_turn_def ProcessQueue_iteration_def Stop_request_def
        Stop_join_def split: option.splits if_splits list.splits)

lemma enqueued_append: "enqueued (es @ es') = enqueued es @ enqueued es'"
  by (induction es rule: enqueued.induct) auto

lemma worker_run_order:
  "worker_run w es = Some w' \<Longrightarrow>
     dispatched w' @ audioQueue w' = dispatched w @ audioQueue w @ enqueued es"
proof (induction es arbitrary: w)
  case Nil
  then show ?case by simp
next
  case (Cons e es)
  then obtain w1 where s: "worker_step w e = Some w1" and r: "worker_run w1 es = Some w'"
    by (auto split: option.splits)
  have "enqueued (e # es) = enqueued [e] @ enqueued es"
    using enqueued_append [of "[e]" es] by simp
  with Cons.IH [OF r] worker_step_order [OF s] show ?case by simp
qed

lemma worker_inv_new: "worker_inv WhisperWorker_new"
  by (simp add: worker_inv_def WhisperWorker_new_def)

lemma worker_step_inv: "worker_inv w \<Longrightarrow> worker_step w e = Some w' \<Longrightarrow> worker_inv w'"
  by (cases e)
     (auto simp: worker_inv_def EnqueueAudio_def worker_turn_def ProcessQueue_iteration_def
        Stop_request_def Stop_join_def split: option.splits if_splits list.splits)

lemma worker_run_inv: "worker_inv w \<Longrightarrow> worker_run w es = Some w' \<Longrightarrow> worker_inv w'"
proof (induction es arbitrary: w)
  case Nil
  then show ?case by simp
next
  case (Cons e es)
  then obtain w1 where s: "worker_step w e = Some w1" and r: "worker_run w1 es = Some w'"
    by (auto split: option.splits)
  from Cons.IH [OF worker_step_inv [OF Cons.prems(1) s] r] show ?case .
qed

lemma drain:
  "\<not> stopRequested w \<Longrightarrow> workerThread w = Running \<Longrightarrow>
     worker_run w (replicate (length (audioQueue w)) WorkerTurn)
       = Some (w\<lparr>audioQueue := [], dispatched := dispatched w @ audioQueue w\<rparr>)"
proof (induction "audioQueue w" arbitrary: w)
  case Nil
  then show ?case by simp
next
  case (Cons c cs)
  let ?w1 = "w\<lparr>audioQueue := cs, dispatched := dispatched w @ [c]\<rparr>"
  have q: "audioQueue w = c # cs" using Cons.hyps(2) by simp
  have t: "worker_turn w = Some ?w1"
    using Cons.prems q by (simp add: worker_turn_def ProcessQueue_iteration_def)
  have "worker_run ?w1 (replicate (length (audioQueue ?w1)) WorkerTurn)
          = Some (?w1\<lparr>audioQueue := [], dispatched := dispatched ?w1 @ audioQueue ?w1\<rparr>)"
    using Cons.prems by (intro Cons.hyps(1)) simp_all
  then show ?case using t q by simp
qed

lemma worker_step_after_exit:
  "workerThread w \<noteq> Running \<Longrightarrow> worker_step w e = Some w' \<Longrightarrow>
     workerThread w' \<noteq> Running \<and> dispatched w' = dispatched w
     \<and> audioQueue w' = audioQueue w @ enqueued [e]"
  by (cases e)
     (auto simp: EnqueueAudio_def worker_turn_def Stop_request_def Stop_join_def
        split: option.splits if_splits)

lemma worker_run_after_exit:
  "workerThread w \<noteq> Running \<Longrightarrow> worker_run w es = Some w' \<Longrightarrow>
     workerThread w' \<noteq> Running \<and> dispatched w' = dispatched w
     \<and> audioQueue w' = audioQueue w @ enqueued es"
proof (induction es arbitrary: w)
  case Nil
  then show ?case by simp
next
  case (Cons e es)
  then obtain w1 where s: "worker_step w e = Some w1" and r: "worker_run w1 es = Some w'"
    by (auto split: option.splits)
  note 1 = worker_step_after_exit [OF Cons.prems(1) s]
  have "enqueued (e # es) = enqueued [e] @ enqueued es"
    using enqueued_append [of "[e]" es] by simp
  with Cons.IH [OF _ r] 1 show ?case by simp
qed

lemma Stop_join_Some: "Stop_join w = Some w' \<Longrightarrow> workerThread w' = Joined"
  by (auto simp: Stop_join_def split: if_splits)

subsection \<open>The claims about the worker\<close>

text \<open>
  Claim C3, as the code has it. A pass of the worker loop stays suspended exactly when
  the queue is empty and no stop has been requested. It leaves the loop exactly when a
  stop has been requested, whether or not chunks are still queued. In the remaining
  case, no stop requested and a non-empty queue, it pops exactly the head chunk and hands
  that one chunk to the processing step.
\<close>

theorem worker_iteration_outcomes:
  "(ProcessQueue_iteration w = Waits \<longleftrightarrow> audioQueue w = [] \<and> \<not> stopRequested w)
   \<and> (ProcessQueue_iteration w = Leaves \<longleftrightarrow> stopRequested w)
   \<and> (\<not> stopRequested w \<longrightarrow> audioQueue w \<noteq> [] \<longrightarrow>
        ProcessQueue_iteration w
          = Takes (hd (audioQueue w))
              (w\<lparr>audioQueue := tl (audioQueue w),
                 dispatched := dispatched w @ [hd (audioQueue w)]\<rparr>))"
  by (auto simp: ProcessQueue_iteration_def split: list.splits)

theorem worker_iteration_outcomes_witness:
  "\<not> stopRequested \<lparr>audioQueue = [\<lparr>data = [1, 2 :: int], timestamp = 1\<rparr>,
                                     \<lparr>data = [3], timestamp = 2\<rparr>],
                       stopRequested = False, workerThread = Running, dispatched = []\<rparr>
   \<and> audioQueue \<lparr>audioQueue = [\<lparr>data = [1, 2 :: int], timestamp = 1\<rparr>,
                                \<lparr>data = [3], timestamp = 2\<rparr>],
                  stopRequested = False, workerThread = Running, dispatched = []\<rparr> \<noteq> []
   \<and> ProcessQueue_iteration
        \<lparr>audioQueue = [\<lparr>data = [1, 2 :: int], timestamp = 1\<rparr>, \<lparr>data = [3], timestamp = 2\<rparr>],
         stopRequested = False, workerThread = Running, dispatched = []\<rparr>
       = Takes \<lparr>data = [1, 2], timestamp = 1\<rparr>
           \<lparr>audioQueue = [\<lparr>data = [3], timestamp = 2\<rparr>],
            stopRequested = False, workerThread = Running,
            dispatched = [\<lparr>data = [1, 2], timestamp = 1\<rparr>]\<rparr>"
  using worker_iteration_outcomes
    [of "\<lparr>audioQueue = [\<lparr>data = [1, 2 :: int], timestamp = 1\<rparr>, \<lparr>data = [3], timestamp = 2\<rparr>],
          stopRequested = False, workerThread = Running, dispatched = []\<rparr>"]
  by simp

text \<open>
  The claim as stated fails: with a stop requested and one chunk still queued, the pass
  leaves the loop, the thread ends, and the chunk is neither popped nor dispatched.
\<close>

theorem worker_exits_with_chunks_queued:
  "ProcessQueue_iteration
     \<lparr>audioQueue = [\<lparr>data = [1, 2 :: int], timestamp = 1\<rparr>],
      stopRequested = True, workerThread = Running, dispatched = []\<rparr> = Leaves
   \<and> worker_turn
       \<lparr>audioQueue = [\<lparr>data = [1, 2 :: int], timestamp = 1\<rparr>],
        stopRequested = True, workerThread = Running, dispatched = []\<rparr>
     = Some \<lparr>audioQueue = [\<lparr>data = [1, 2], timestamp = 1\<rparr>],
             stopRequested = True, workerThread = Exited, dispatched = []\<rparr>"
  by (simp add: ProcessQueue_iteration_def worker_turn_def)

text \<open>
  Claim C4. In every execution, however the calls of \<^verbatim>\<open>EnqueueAudio\<close> and the turns of
  the worker interleave, the chunks dispatched so far followed by the chunks still queued
  are exactly the chunks enqueued, in enqueue order. As long as no stop has been
  requested the worker can go on, one chunk per turn, until it has dispatched every
  enqueued chunk in that order.
\<close>

theorem dispatch_in_enqueue_order:
  assumes "worker_run WhisperWorker_new es = Some w"
  shows "enqueued es = dispatched w @ audioQueue w
       \<and> (\<not> stopRequested w \<longrightarrow>
            worker_run w (replicate (length (audioQueue w)) WorkerTurn)
              = Some (w\<lparr>audioQueue := [], dispatched := enqueued es\<rparr>))"
proof -
  have o: "enqueued es = dispatched w @ audioQueue w"
    using worker_run_order [OF assms] by (simp add: WhisperWorker_new_def)
  have "worker_inv w" using worker_inv_new assms by (rule worker_run_inv)
  then have "\<not> stopRequested w \<Longrightarrow> workerThread w = Running"
    by (auto simp: worker_inv_def)
  with o drain [of w] show ?thesis by auto
qed

theorem dispatch_in_enqueue_order_witness:
  "worker_run (WhisperWorker_new :: int WhisperWorker)
        [Enqueue [1, 2] 2 1, Enqueue [3] 1 2, WorkerTurn, Enqueue [4, 5, 6] 3 3]
     = Some \<lparr>audioQueue = [\<lparr>data = [3], timestamp = 2\<rparr>, \<lparr>data = [4, 5, 6], timestamp = 3\<rparr>],
             stopRequested = False, workerThread = Running,
             dispatched = [\<lparr>data = [1, 2], timestamp = 1\<rparr>]\<rparr>
   \<and> worker_run \<lparr>audioQueue = [\<lparr>data = [3 :: int], timestamp = 2\<rparr>,
                          \<lparr>data = [4, 5, 6], timestamp = 3\<rparr>],
           stopRequested = False, workerThread = Running,
           dispatched = [\<lparr>data = [1, 2], timestamp = 1\<rparr>]\<rparr>
         [WorkerTurn, WorkerTurn]
     = Some \<lparr>audioQueue = [], stopRequested = False, workerThread = Running,
             dispatched = [\<lparr>data = [1, 2], timestamp = 1\<rparr>, \<lparr>data = [3], timestamp = 2\<rparr>,
                           \<lparr>data = [4, 5, 6], timestamp = 3\<rparr>]\<rparr>"
proof -
  have h: "worker_run (WhisperWorker_new :: int WhisperWorker)
             [Enqueue [1, 2] 2 1, Enqueue [3] 1 2, WorkerTurn, Enqueue [4, 5, 6] 3 3]
           = Some \<lparr>audioQueue = [\<lparr>data = [3], timestamp = 2\<rparr>,
                                 \<lparr>data = [4, 5, 6], timestamp = 3\<rparr>],
                   stopRequested = False, workerThread = Running,
                   dispatched = [\<lparr>data = [1, 2], timestamp = 1\<rparr>]\<rparr>"
    by (simp add: WhisperWorker_new_def EnqueueAudio_def AudioChunk_new_def worker_turn_def
          ProcessQueue_iteration_def)
  from dispatch_in_enqueue_order [OF h] h show ?thesis
    by (simp add: AudioChunk_new_def eval_nat_numeral)
qed

text \<open>
  Claim C7. Once a call of \<^verbatim>\<open>Stop\<close> has returned, nothing that happens afterwards
  dispatches a chunk: the worker thread has no turn left, and the chunks of later
  \<^verbatim>\<open>EnqueueAudio\<close> calls only accumulate in the queue.
\<close>

theorem no_dispatch_after_Stop:
  assumes "worker_run WhisperWorker_new es1 = Some w1"
    and "worker_step w1 StopReturned = Some w2"
    and "worker_run w2 es2 = Some w3"
  shows "dispatched w3 = dispatched w2
       \<and> worker_turn w3 = None
       \<and> audioQueue w3 = audioQueue w2 @ enqueued es2"
proof -
  have j: "workerThread w2 = Joined" using assms(2) by (simp add: Stop_join_Some)
  then have "workerThread w2 \<noteq> Running" by simp
  from worker_run_after_exit [OF this assms(3)] show ?thesis
    by (simp add: worker_turn_def)
qed

theorem no_dispatch_after_Stop_witness:
  "worker_run (WhisperWorker_new :: int WhisperWorker) [Enqueue [1, 2] 2 1, StopCalled, WorkerTurn]
     = Some \<lparr>audioQueue = [\<lparr>data = [1, 2], timestamp = 1\<rparr>], stopRequested = True,
             workerThread = Exited, dispatched = []\<rparr>
   \<and> worker_step \<lparr>audioQueue = [\<lparr>data = [1, 2 :: int], timestamp = 1\<rparr>], stopRequested = True,
            workerThread = Exited, dispatched = []\<rparr> StopReturned
     = Some \<lparr>audioQueue = [\<lparr>data = [1, 2], timestamp = 1\<rparr>], stopRequested = True,
             workerThread = Joined, dispatched = []\<rparr>
   \<and> worker_run \<lparr>audioQueue = [\<lparr>data = [1, 2 :: int], timestamp = 1\<rparr>], stopRequested = True,
           workerThread = Joined, dispatched = []\<rparr> [Enqueue [3] 1 2]
     = Some \<lparr>audioQueue = [\<lparr>data = [1, 2], timestamp = 1\<rparr>, \<lparr>data = [3], timestamp = 2\<rparr>],
             stopRequested = True, workerThread = Joined, dispatched = []\<rparr>
   \<and> worker_turn \<lparr>audioQueue = [\<lparr>data = [1, 2 :: int], timestamp = 1\<rparr>,
                                  \<lparr>data = [3], timestamp = 2\<rparr>],
                   stopRequested = True, workerThread = Joined, dispatched = []\<rparr> = None"
proof -
  have h1: "worker_run (WhisperWorker_new :: int WhisperWorker)
              [Enqueue [1, 2] 2 1, StopCalled, WorkerTurn]
            = Some \<lparr>audioQueue = [\<lparr>data = [1, 2], timestamp = 1\<rparr>], stopRequested = True,
                    workerThread = Exited, dispatched = []\<rparr>"
    by (simp add: WhisperWorker_new_def EnqueueAudio_def AudioChunk_new_def worker_turn_def
          ProcessQueue_iteration_def Stop_request_def)
  have h2: "worker_step \<lparr>audioQueue = [\<lparr>data = [1, 2 :: int], timestamp = 1\<rparr>], stopRequested = True,
                  workerThread = Exited, dispatched = []\<rparr> StopReturned
            = Some \<lparr>audioQueue = [\<lparr>data = [1, 2], timestamp = 1\<rparr>], stopRequested = True,
                    workerThread = Joined, dispatched = []\<rparr>"
    by (simp add: Stop_join_def)
  have h3: "worker_run \<lparr>audioQueue = [\<lparr>data = [1, 2 :: int], timestamp = 1\<rparr>], stopRequested = True,
                 workerThread = Joined, dispatched = []\<rparr> [Enqueue [3] 1 2]
            = Some \<lparr>audioQueue = [\<lparr>data = [1, 2], timestamp = 1\<rparr>,
                                  \<lparr>data = [3], timestamp = 2\<rparr>],
                    stopRequested = True, workerThread = Joined, dispatched = []\<rparr>"
    by (simp add: EnqueueAudio_def AudioChunk_new_def)
  from no_dispatch_after_Stop [OF h1 h2 h3] h1 h2 h3 show ?thesis
    by (simp add: AudioChunk_new_def worker_turn_def)
qed

text \<open>
  Claim C8. After a call of \<^verbatim>\<open>Stop\<close> has returned, a second call runs both of its parts
  without blocking and leaves the worker exactly as it was.
\<close>

theorem Stop_idempotent:
  assumes "worker_run WhisperWorker_new es = Some w0"
    and "worker_step w0 StopReturned = Some w"
  shows "worker_run w [StopCalled, StopReturned] = Some w"
proof -
  have "worker_inv w0" using worker_inv_new assms(1) by (rule worker_run_inv)
  then have "worker_inv w" using assms(2) by (rule worker_step_inv)
  moreover have "workerThread w = Joined" using assms(2) by (simp add: Stop_join_Some)
  ultimately show ?thesis
    by (simp add: worker_inv_def Stop_request_def Stop_join_def)
qed

theorem Stop_idempotent_witness:
  "worker_run (WhisperWorker_new :: int WhisperWorker) [Enqueue [1, 2] 2 1, StopCalled, WorkerTurn]
     = Some \<lparr>audioQueue = [\<lparr>data = [1, 2], timestamp = 1\<rparr>], stopRequested = True,
             workerThread = Exited, dispatched = []\<rparr>
   \<and> worker_step \<lparr>audioQueue = [\<lparr>data = [1, 2 :: int], timestamp = 1\<rparr>], stopRequested = True,
            workerThread = Exited, dispatched = []\<rparr> StopReturned
     = Some \<lparr>audioQueue = [\<lparr>data = [1, 2], timestamp = 1\<rparr>], stopRequested = True,
             workerThread = Joined, dispatched = []\<rparr>
   \<and> worker_run \<lparr>audioQueue = [\<lparr>data = [1, 2 :: int], timestamp = 1\<rparr>], stopRequested = True,
           workerThread = Joined, dispatched = []\<rparr> [StopCalled, StopReturned]
     = Some \<lparr>audioQueue = [\<lparr>data = [1, 2], timestamp = 1\<rparr>], stopRequested = True,
             workerThread = Joined, dispatched = []\<rparr>"
proof -
  have h1: "worker_run (WhisperWorker_new :: int WhisperWorker)
              [Enqueue [1, 2] 2 1, StopCalled, WorkerTurn]
            = Some \<lparr>audioQueue = [\<lparr>data = [1, 2], timestamp = 1\<rparr>], stopRequested = True,
                    workerThread = Exited, dispatched = []\<rparr>"
    by (simp add: WhisperWorker_new_def EnqueueAudio_def AudioChunk_new_def worker_turn_def
          ProcessQueue_iteration_def Stop_request_def)
  have h2: "worker_step \<lparr>audioQueue = [\<lparr>data = [1, 2 :: int], timestamp = 1\<rparr>], stopRequested = True,
                  workerThread = Exited, dispatched = []\<rparr> StopReturned
            = Some \<lparr>audioQueue = [\<lparr>data = [1, 2], timestamp = 1\<rparr>], stopRequested = True,
                    workerThread = Joined, dispatched = []\<rparr>"
    by (simp add: Stop_join_def)
  from Stop_idempotent [OF h1 h2] h1 h2 show ?thesis by (simp only: simp_thms)
qed

section \<open>Properties of the session object\<close>

lemma Has_Get_String:
  "(Has (Napi_Object props) key \<and> IsString (Get (Napi_Object props) key))
     \<longleftrightarrow> (\<exists>l. map_of props key = Some (Napi_String l))"
  by (cases "map_of props key"; cases "the (map_of props key)") auto

lemma Has_Get_Number:
  "(Has (Napi_Object props) key \<and> IsNumber (Get (Napi_Object props) key))
     \<longleftrightarrow> (\<exists>n. map_of props key = Some (Napi_Number n))"
  by (cases "map_of props key"; cases "the (map_of props key)") auto

lemma Transcribe_wparams_object:
  "Transcribe_wparams Int32Value dflt (a # Napi_Object props # rest)
     = dflt\<lparr>print_progress := False, print_special := False, print_realtime := False,
            print_timestamps := True, translate := False,
            n_threads := (if Has (Napi_Object props) ''threads''
                             \<and> IsNumber (Get (Napi_Object props) ''threads'')
                          then (case Get (Napi_Object props) ''threads'' of
                                  Napi_Number v \<Rightarrow> Int32Value v | _ \<Rightarrow> 0)
                          else 4),
            language := (if Has (Napi_Object props) ''language''
                            \<and> IsString (Get (Napi_Object props) ''language'')
                         then Utf8Value (Get (Napi_Object props) ''language'')
                         else ''en'')\<rparr>"
  unfolding Transcribe_wparams_def Let_def by simp

lemma Transcribe_wparams_no_options:
  "length info < 2 \<or> \<not> IsObject (info ! 1) \<Longrightarrow>
     Transcribe_wparams Int32Value dflt info
       = dflt\<lparr>print_progress := False, print_special := False, print_realtime := False,
              print_timestamps := True, translate := False, n_threads := 4,
              language := ''en''\<rparr>"
  by (auto simp: Transcribe_wparams_def)

lemma Transcribe_wparams_language_given:
  "map_of props ''language'' = Some (Napi_String l) \<Longrightarrow>
     language (Transcribe_wparams Int32Value dflt (a # Napi_Object props # rest)) = l"
  by (simp add: Transcribe_wparams_object)

lemma Transcribe_wparams_language_default:
  "\<forall>l. map_of props ''language'' \<noteq> Some (Napi_String l) \<Longrightarrow>
     language (Transcribe_wparams Int32Value dflt (a # Napi_Object props # rest)) = ''en''"
  by (simp add: Transcribe_wparams_object Has_Get_String del: Has.simps Get.simps)

lemma Transcribe_wparams_threads_given:
  "map_of props ''threads'' = Some (Napi_Number n) \<Longrightarrow>
     n_threads (Transcribe_wparams Int32Value dflt (a # Napi_Object props # rest))
       = Int32Value n"
  by (simp add: Transcribe_wparams_object)

lemma Transcribe_wparams_threads_default:
  "\<forall>n. map_of props ''threads'' \<noteq> Some (Napi_Number n) \<Longrightarrow>
     n_threads (Transcribe_wparams Int32Value dflt (a # Napi_Object props # rest)) = 4"
  by (simp add: Transcribe_wparams_object Has_Get_Number del: Has.simps Get.simps)

lemma Transcribe_runs:
  "ctx s = Some c \<Longrightarrow>
     Transcribe Int32Value Number_New dflt whisper_full s (Napi_Buffer audio # opts)
       = (case whisper_full c (Transcribe_wparams Int32Value dflt (Napi_Buffer audio # opts))
                audio of
            (rc, segs) \<Rightarrow>
              if rc \<noteq> 0 then Inl (Error ''Transcription failed'')
              else Inr (map (\<lambda>(text, t0, t1).
                                   Napi_Object
                                     [(''text'', Napi_String text),
                                      (''timestampStart'', Napi_Number (Number_New (t0 * 10))),
                                      (''timestampEnd'', Napi_Number (Number_New (t1 * 10)))])
                              segs))"
  by (simp add: Transcribe_def)

subsection \<open>The claims about the session\<close>

text \<open>
  Claim C9. \<^verbatim>\<open>Destroy\<close> hands the context, if there is one, to \<^verbatim>\<open>whisper_free\<close> and
  leaves the session with a null context. A second \<^verbatim>\<open>Destroy\<close> changes neither the
  session nor the state of the library, whatever \<^verbatim>\<open>whisper_free\<close> does: it is not called
  again.
\<close>

theorem Destroy_releases_once:
  "fst (Destroy whisper_free (h, s)) = (case ctx s of None \<Rightarrow> h | Some c \<Rightarrow> whisper_free h c)
   \<and> ctx (snd (Destroy whisper_free (h, s))) = None
   \<and> Destroy whisper_free (Destroy whisper_free (h, s)) = Destroy whisper_free (h, s)"
  by (simp add: Destroy_def split: option.splits)

text \<open>
  Claim C10. With a loaded model and an audio buffer as first argument, \<^verbatim>\<open>Transcribe\<close>
  calls \<^verbatim>\<open>whisper_full\<close> with parameters \<open>p\<close> such that: without a second argument, or
  with one that is not an object, the language is \<^verbatim>\<open>"en"\<close> and the thread count 4; with
  an options object, the language is its string \<^verbatim>\<open>language\<close> property if it has one and
  \<^verbatim>\<open>"en"\<close> otherwise, and the thread count is the \<^verbatim>\<open>Int32Value()\<close> of its numeric
  \<^verbatim>\<open>threads\<close> property if it has one and 4 otherwise.
\<close>

theorem Transcribe_defaults_and_options:
  assumes "ctx s = Some c"
  shows "\<exists>p. (\<forall>whisper_full.
                Transcribe Int32Value Number_New dflt whisper_full s (Napi_Buffer audio # opts)
                  = (case whisper_full c p audio of
                       (rc, segs) \<Rightarrow>
                         if rc \<noteq> 0 then Inl (Error ''Transcription failed'')
                         else Inr (map (\<lambda>(text, t0, t1).
                                              Napi_Object
                                                [(''text'', Napi_String text),
                                                 (''timestampStart'', Napi_Number (Number_New (t0 * 10))),
                                                 (''timestampEnd'', Napi_Number (Number_New (t1 * 10)))])
                                         segs)))
          \<and> (opts = [] \<longrightarrow> language p = ''en'' \<and> n_threads p = 4)
          \<and> (\<forall>v rest. opts = v # rest \<longrightarrow> \<not> IsObject v \<longrightarrow>
                language p = ''en'' \<and> n_threads p = 4)
          \<and> (\<forall>props rest. opts = Napi_Object props # rest \<longrightarrow>
                (\<forall>l. map_of props ''language'' = Some (Napi_String l) \<longrightarrow> language p = l)
              \<and> ((\<forall>l. map_of props ''language'' \<noteq> Some (Napi_String l)) \<longrightarrow>
                    language p = ''en'')
              \<and> (\<forall>n. map_of props ''threads'' = Some (Napi_Number n) \<longrightarrow>
                    n_threads p = Int32Value n)
              \<and> ((\<forall>n. map_of props ''threads'' \<noteq> Some (Napi_Number n)) \<longrightarrow>
                    n_threads p = 4))"
proof -
  let ?p = "Transcribe_wparams Int32Value dflt (Napi_Buffer audio # opts)"
  have 1: "\<forall>whisper_full.
             Transcribe Int32Value Number_New dflt whisper_full s (Napi_Buffer audio # opts)
               = (case whisper_full c ?p audio of
                    (rc, segs) \<Rightarrow>
                      if rc \<noteq> 0 then Inl (Error ''Transcription failed'')
                      else Inr (map (\<lambda>(text, t0, t1).
                                           Napi_Object
                                             [(''text'', Napi_String text),
                                              (''timestampStart'', Napi_Number (Number_New (t0 * 10))),
                                              (''timestampEnd'', Napi_Number (Number_New (t1 * 10)))])
                                      segs))"
    using assms by (simp add: Transcribe_runs)
  have 2: "opts = [] \<longrightarrow> language ?p = ''en'' \<and> n_threads ?p = 4"
    by (simp add: Transcribe_wparams_no_options)
  have 3: "\<forall>v rest. opts = v # rest \<longrightarrow> \<not> IsObject v \<longrightarrow>
             language ?p = ''en'' \<and> n_threads ?p = 4"
    by (simp add: Transcribe_wparams_no_options)
  have 4: "\<forall>props rest. opts = Napi_Object props # rest \<longrightarrow>
                (\<forall>l. map_of props ''language'' = Some (Napi_String l) \<longrightarrow> language ?p = l)
              \<and> ((\<forall>l. map_of props ''language'' \<noteq> Some (Napi_String l)) \<longrightarrow>
                    language ?p = ''en'')
              \<and> (\<forall>n. map_of props ''threads'' = Some (Napi_Number n) \<longrightarrow>
                    n_threads ?p = Int32Value n)
              \<and> ((\<forall>n. map_of props ''threads'' \<noteq> Some (Napi_Number n)) \<longrightarrow>
                    n_threads ?p = 4)"
    by (auto simp: Transcribe_wparams_language_given Transcribe_wparams_language_default
          Transcribe_wparams_threads_given Transcribe_wparams_threads_default)
  from 1 2 3 4 show ?thesis by blast
qed

theorem Transcribe_defaults_and_options_witness:
  "ctx \<lparr>ctx = Some 1, modelPath = ''model.bin''\<rparr> = Some 1
   \<and> (\<exists>p :: whisper_full_params.
         (\<forall>whisper_full.
            Transcribe (word_of_int :: int \<Rightarrow> 32 word) (sint :: 64 word \<Rightarrow> int)
              \<lparr>print_progress = True, print_special = True, print_realtime = True,
                print_timestamps = False, translate = True, n_threads = 1,
                language = ''auto''\<rparr>
              whisper_full
              \<lparr>ctx = Some 1, modelPath = ''model.bin''\<rparr>
              [Napi_Buffer [0 :: int],
               Napi_Object [(''language'', Napi_String ''fr''), (''threads'', Napi_Number 8)]]
            = (case whisper_full 1 p [0] of
                 (rc, segs) \<Rightarrow>
                   if rc \<noteq> 0 then Inl (Error ''Transcription failed'')
                   else Inr (map (\<lambda>(text, t0, t1).
                                   Napi_Object
                                     [(''text'', Napi_String text),
                                      (''timestampStart'', Napi_Number (sint (t0 * 10))),
                                      (''timestampEnd'', Napi_Number (sint (t1 * 10)))])
                              segs)))
         \<and> language p = ''fr'' \<and> n_threads p = 8)"
proof -
  have h: "ctx \<lparr>ctx = Some 1, modelPath = ''model.bin''\<rparr> = Some 1" by simp
  from Transcribe_defaults_and_options [OF h,
      where Int32Value = "word_of_int :: int \<Rightarrow> 32 word"
        and Number_New = "sint :: 64 word \<Rightarrow> int"
        and dflt = "\<lparr>print_progress = True, print_special = True, print_realtime = True,
                     print_timestamps = False, translate = True, n_threads = 1,
                     language = ''auto''\<rparr>"
        and audio = "[0 :: int]"
        and opts = "[Napi_Object [(''language'', Napi_String ''fr''),
                                  (''threads'', Napi_Number 8)]]"]
  show ?thesis by simp
qed

end
